theory Spec2Isabelle
  imports Complex_Main "HOL-Library.Word" "HOL-Library.Log_Nat"
begin

text \<open>
  The execution and grading engine of the contest module: the dispatcher
  \<open>executeCode\<close>, the grading loop \<open>processSubmission\<close> and the route that creates a
  submission (\<open>routes/submissions.js\<close>), the hook of the Submission model
  (\<open>models/Submission.js\<close>) and the leaderboard (\<open>routes/contests.js\<close>). What lies
  outside these functions is an explicit parameter: the replies of the \<open>compilex\<close>
  library with the elapsed time read at each reply, the clock, the database operations
  that throw, and the users that \<open>populate\<close> finds.
\<close>

section \<open>JavaScript strings\<close>

text \<open>
  A JavaScript string is a sequence of UTF-16 code units. \<open>String.prototype.trim\<close>
  removes the code units of the ECMAScript WhiteSpace and LineTerminator productions
  from both ends; all of them lie in the Basic Multilingual Plane, so the test is per
  code unit.
\<close>

type_synonym jschar = "16 word"
type_synonym jsstring = "jschar list"

definition ascii :: "string \<Rightarrow> jsstring" where
  "ascii s = map of_char s"

definition isWhiteSpace :: "jschar \<Rightarrow> bool" where
  "isWhiteSpace c \<longleftrightarrow>
     c = 0x0009 \<or> c = 0x000A \<or> c = 0x000B \<or> c = 0x000C \<or> c = 0x000D \<or> c = 0x0020 \<or>
     c = 0x00A0 \<or> c = 0x1680 \<or> (0x2000 \<le> c \<and> c \<le> 0x200A) \<or> c = 0x2028 \<or>
     c = 0x2029 \<or> c = 0x202F \<or> c = 0x205F \<or> c = 0x3000 \<or> c = 0xFEFF"

definition trimStart :: "jsstring \<Rightarrow> jsstring" where
  "trimStart s = dropWhile isWhiteSpace s"

definition trimEnd :: "jsstring \<Rightarrow> jsstring" where
  "trimEnd s = rev (dropWhile isWhiteSpace (rev s))"

definition trim :: "jsstring \<Rightarrow> jsstring" where
  "trim s = trimEnd (trimStart s)"

text \<open>\<open>s.split('\n')\<close>: the pieces between line feeds; the empty string gives one empty piece.\<close>

fun split_nl :: "jsstring \<Rightarrow> jsstring list" where
  "split_nl [] = [[]]"
| "split_nl (c # cs) =
     (if c = 0x000A then [] # split_nl cs
      else (case split_nl cs of
              [] \<Rightarrow> [[c]]
            | l # ls \<Rightarrow> (c # l) # ls))"

text \<open>Truthiness of a value that is a string, \<open>undefined\<close> or \<open>null\<close>.\<close>

definition truthy :: "jsstring option \<Rightarrow> bool" where
  "truthy v = (case v of None \<Rightarrow> False | Some s \<Rightarrow> s \<noteq> [])"

text \<open>\<open>v || ''\<close> for such a value.\<close>

definition or_empty :: "jsstring option \<Rightarrow> jsstring" where
  "or_empty v = (if truthy v then the v else [])"

text \<open>\<open>n || 0\<close> for a number.\<close>

definition or_zero :: "'a::zero \<Rightarrow> 'a" where
  "or_zero n = (if n \<noteq> 0 then n else 0)"

section \<open>The execution dispatcher: \<open>executeCode\<close> in \<open>routes/submissions.js\<close>\<close>

datatype exec_status = Success | Error | Timeout

record outcome =
  o_status :: exec_status
  o_error :: jsstring
  o_executionTime :: int
  o_memoryUsed :: int
  o_output :: jsstring

text \<open>
  The external collaborator \<open>compilex\<close>. A call names the entry point and carries what
  the dispatcher passes to it: for Python the lines spliced into the preamble's
  \<open>input_lines\<close> and the submitted code, for the other languages the method, the code
  and the input. The collaborator either throws, which rejects the promise of
  \<open>executeCode\<close>, or calls back with \<open>data\<close>; the integer of the reply is
  \<open>Date.now() - startTime\<close> as read inside the callback. A collaborator that never
  calls back, or that throws only after it has returned, leaves the promise pending and
  the handler without an answer; such runs have no value here.
\<close>

record compilex_data =
  d_error :: "jsstring option"
  d_output :: "jsstring option"

datatype compilex_call =
    CompilePython "jsstring list" jsstring
  | CompileMethod string jsstring "jsstring option"

datatype compilex_reply = Threw jsstring | Returned compilex_data int

type_synonym compilex = "compilex_call \<Rightarrow> compilex_reply"

text \<open>
  The lookup \<open>{'c': 'C', 'cpp': 'Cpp', 'java': 'Java', 'javascript': 'node'}[language]\<close>.
  A key the literal does not own is looked up on \<open>Object.prototype\<close>: for the names
  below the result is a truthy non-string, and \<open>compilex[compileMethod]\<close> is then not a
  function, so the call throws.
\<close>

datatype lookup = Undefined | Own string | Inherited

definition object_prototype_keys :: "string list" where
  "object_prototype_keys =
     [''constructor'', ''toString'', ''toLocaleString'', ''valueOf'', ''hasOwnProperty'',
      ''isPrototypeOf'', ''propertyIsEnumerable'', ''__proto__'', ''__defineGetter__'',
      ''__defineSetter__'', ''__lookupGetter__'', ''__lookupSetter__'']"

definition compilexLang :: "string \<Rightarrow> lookup" where
  "compilexLang language =
     (case map_of [(''c'', ''C''), (''cpp'', ''Cpp''), (''java'', ''Java''),
                   (''javascript'', ''node'')] language of
        Some m \<Rightarrow> Own m
      | None \<Rightarrow> if language \<in> set object_prototype_keys then Inherited else Undefined)"

text \<open>
  The callback given to \<open>compilex\<close>; the Python branch and the branch of the other
  languages resolve with the same three records.
\<close>

definition onData :: "int \<Rightarrow> compilex_data \<Rightarrow> int \<Rightarrow> outcome" where
  "onData timeLimit d executionTime =
     (if truthy (d_error d) then
        \<lparr>o_status = Error, o_error = the (d_error d), o_executionTime = executionTime,
         o_memoryUsed = 0, o_output = or_empty (d_output d)\<rparr>
      else if executionTime > timeLimit then
        \<lparr>o_status = Timeout, o_error = ascii ''Time limit exceeded'',
         o_executionTime = executionTime, o_memoryUsed = 0, o_output = or_empty (d_output d)\<rparr>
      else
        \<lparr>o_status = Success, o_error = [], o_executionTime = executionTime,
         o_memoryUsed = 0, o_output = or_empty (d_output d)\<rparr>)"

text \<open>
  \<open>executeCode(code, language, input, timeLimit)\<close>. \<open>Inl\<close> is a rejected promise (the
  executor threw), \<open>Inr\<close> the resolved outcome.
\<close>

definition executeCode ::
  "compilex \<Rightarrow> jsstring \<Rightarrow> string \<Rightarrow> jsstring option \<Rightarrow> int \<Rightarrow> jsstring + outcome" where
  "executeCode cx code language input timeLimit =
     (if language = ''python'' then
        (let inputStr = trim (or_empty input) in
         case cx (CompilePython (split_nl inputStr) code) of
           Threw m \<Rightarrow> Inl m
         | Returned d t \<Rightarrow> Inr (onData timeLimit d t))
      else
        (case compilexLang language of
           Undefined \<Rightarrow>
             Inr \<lparr>o_status = Error, o_error = ascii ''Unsupported language'',
                  o_executionTime = 0, o_memoryUsed = 0, o_output = []\<rparr>
         | Inherited \<Rightarrow> Inl (ascii ''compilex[compileMethod] is not a function'')
         | Own m \<Rightarrow>
             (case cx (CompileMethod (''compile'' @ m) code input) of
                Threw e \<Rightarrow> Inl e
              | Returned d t \<Rightarrow> Inr (onData timeLimit d t))))"

section \<open>Numbers\<close>

text \<open>
  JavaScript numbers are IEEE 754 doubles. A finite number is modelled by the rational
  it denotes, and an arithmetic operation of the source by the exact operation followed
  by \<open>fl\<close>, the rounding to the nearest double, ties to the even significand (53
  significant bits). Marks, scores and \<open>maxAttempts\<close> are such numbers: the schemas
  declare them \<open>Number\<close> and bound them from below only. Times are whole numbers of
  milliseconds and counts are whole numbers; they stay \<open>int\<close>, where the operations of
  the source are exact. Infinities, \<open>NaN\<close> and the overflow or underflow of the
  exponent are outside the model.
\<close>

definition round_ties_even :: "rat \<Rightarrow> int" where
  "round_ties_even x =
     (let f = \<lfloor>x\<rfloor>; r = x - of_int f
      in if r < 1 / 2 then f else if 1 / 2 < r then f + 1 else if even f then f else f + 1)"

text \<open>The exponent \<open>e\<close> with \<open>2^e \<le> |x| < 2^(e+1)\<close>, for \<open>x \<noteq> 0\<close>.\<close>

definition binade :: "rat \<Rightarrow> int" where
  "binade x =
     (let (p, q) = quotient_of \<bar>x\<bar>; d = bitlen p - bitlen q
      in if power_int 2 d \<le> \<bar>x\<bar> then d else d - 1)"

definition fl :: "rat \<Rightarrow> rat" where
  "fl x =
     (if x = 0 then 0
      else let u = power_int 2 (binade x - 52)
           in of_int (round_ties_even (x / u)) * u)"

definition js_add :: "rat \<Rightarrow> rat \<Rightarrow> rat" where
  "js_add x y = fl (x + y)"

definition js_sub :: "rat \<Rightarrow> rat \<Rightarrow> rat" where
  "js_sub x y = fl (x - y)"

definition js_mul :: "rat \<Rightarrow> rat \<Rightarrow> rat" where
  "js_mul x y = fl (x * y)"

definition js_div :: "rat \<Rightarrow> rat \<Rightarrow> rat" where
  "js_div x y = fl (x / y)"

text \<open>\<open>Math.round\<close>: the nearest integer, a tie going up.\<close>

definition Math_round :: "rat \<Rightarrow> int" where
  "Math_round x = \<lfloor>x + 1 / 2\<rfloor>"

section \<open>The data model: \<open>models/Contest.js\<close> and \<open>models/Submission.js\<close>\<close>

record testCase =
  tc_id :: nat
  tc_input :: jsstring
  tc_expectedOutput :: jsstring
  tc_marks :: rat
  tc_isHidden :: bool

record question =
  q_id :: nat
  q_testCases :: "testCase list"
  q_timeLimit :: int
  q_totalMarks :: rat

record contest =
  c_id :: nat
  c_startTime :: int
  c_endTime :: int
  c_questions :: "question list"
  c_isActive :: bool
  c_allowedLanguages :: "string list"
  c_maxAttempts :: rat

datatype verdict =
  passed | failed | runtime_error | time_limit_exceeded | memory_limit_exceeded

record testCaseResult =
  r_testCaseId :: nat
  r_status :: verdict
  r_executionTime :: int
  r_memoryUsed :: int
  r_output :: jsstring
  r_error :: jsstring
  r_marksAwarded :: rat
  r_maxMarks :: rat
  r_isHidden :: bool

datatype submission_status = pending | running | completed | error

record submission =
  s_id :: nat
  s_contestId :: nat
  s_questionId :: nat
  s_userId :: nat
  s_code :: jsstring
  s_language :: string
  s_status :: submission_status
  s_testCaseResults :: "testCaseResult list"
  s_totalMarks :: rat
  s_marksAwarded :: rat
  s_scorePercentage :: int
  s_maxMarks :: rat
  s_passedTestCases :: int
  s_totalTestCases :: int
  s_executionTime :: int
  s_memoryUsed :: int
  s_submittedAt :: int
  s_compilationError :: jsstring

text \<open>The hook \<open>submissionSchema.pre('save')\<close>; it runs inside every \<open>save\<close>.\<close>

definition pre_save :: "submission \<Rightarrow> submission" where
  "pre_save doc =
     doc\<lparr>s_totalMarks := foldl (\<lambda>total result. js_add total (r_marksAwarded result)) 0
                              (s_testCaseResults doc),
         s_passedTestCases :=
           int (length (filter (\<lambda>result. r_status result = passed) (s_testCaseResults doc))),
         s_totalTestCases := int (length (s_testCaseResults doc))\<rparr>"

text \<open>
  The Submission collection, in insertion order. \<open>store\<close> stores a document under its
  \<open>_id\<close>, replacing the stored one if there is one.
\<close>

type_synonym collection = "submission list"

definition findById :: "collection \<Rightarrow> nat \<Rightarrow> submission option" where
  "findById db i = find (\<lambda>s. s_id s = i) db"

definition store :: "collection \<Rightarrow> submission \<Rightarrow> collection" where
  "store db doc =
     (if s_id doc \<in> set (map s_id db)
      then map (\<lambda>s. if s_id s = s_id doc then doc else s) db
      else db @ [doc])"

definition countDocuments :: "collection \<Rightarrow> nat \<Rightarrow> nat \<Rightarrow> nat \<Rightarrow> int" where
  "countDocuments db contestId questionId userId =
     int (length (filter (\<lambda>s. s_contestId s = contestId \<and> s_questionId s = questionId \<and>
                                 s_userId s = userId) db))"

text \<open>
  A database operation may throw. The record names, for each operation of the two
  functions below, the message it throws with, or \<open>None\<close> when it succeeds.
\<close>

record db_faults =
  f_contestFind :: "jsstring option"
  f_count :: "jsstring option"
  f_create :: "jsstring option"
  f_find :: "jsstring option"
  f_saveRunning :: "jsstring option"
  f_saveCompleted :: "jsstring option"
  f_catchFind :: "jsstring option"
  f_catchSave :: "jsstring option"
  f_refetch :: "jsstring option"

section \<open>The grading engine: \<open>processSubmission\<close> in \<open>routes/submissions.js\<close>\<close>

text \<open>The accumulators of the loop over the test cases.\<close>

record grading =
  g_testCaseResults :: "testCaseResult list"
  g_totalExecutionTime :: int
  g_totalMemoryUsed :: int
  g_totalMarks :: rat
  g_obtainedMarks :: rat

text \<open>
  The body of the inner \<open>try\<close> once \<open>executeCode\<close> has resolved with \<open>result\<close>. The
  fields \<open>output\<close> and \<open>error\<close> of an outcome are strings, so \<open>|| ''\<close> leaves them as
  they are; \<open>testCase.expectedOutput\<close> is a string too, so no \<open>trim()\<close> throws and the
  inner \<open>catch\<close> is entered only when \<open>executeCode\<close> rejects.
\<close>

definition tryBody :: "testCase \<Rightarrow> outcome \<Rightarrow> grading \<Rightarrow> grading" where
  "tryBody testCase result g =
     (let testCaseResult =
            \<lparr>r_testCaseId = tc_id testCase, r_status = failed,
             r_executionTime = or_zero (o_executionTime result),
             r_memoryUsed = or_zero (o_memoryUsed result),
             r_output = o_output result, r_error = o_error result,
             r_marksAwarded = 0, r_maxMarks = tc_marks testCase,
             r_isHidden = tc_isHidden testCase\<rparr>;
          totalMarks = js_add (g_totalMarks g) (tc_marks testCase);
          (testCaseResult, obtainedMarks) =
            (if o_status result = Success \<and>
                trim (o_output result) = trim (tc_expectedOutput testCase)
             then (testCaseResult\<lparr>r_status := passed, r_marksAwarded := tc_marks testCase\<rparr>,
                   js_add (g_obtainedMarks g) (tc_marks testCase))
             else if o_status result = Timeout
             then (testCaseResult\<lparr>r_status := time_limit_exceeded\<rparr>, g_obtainedMarks g)
             else if o_status result = Error
             then (testCaseResult\<lparr>r_status := runtime_error\<rparr>, g_obtainedMarks g)
             else (testCaseResult, g_obtainedMarks g))
      in \<lparr>g_testCaseResults = g_testCaseResults g @ [testCaseResult],
          g_totalExecutionTime = g_totalExecutionTime g + or_zero (o_executionTime result),
          g_totalMemoryUsed = max (g_totalMemoryUsed g) (or_zero (o_memoryUsed result)),
          g_totalMarks = totalMarks,
          g_obtainedMarks = obtainedMarks\<rparr>)"

text \<open>The inner \<open>catch\<close>, entered when \<open>executeCode\<close> rejected with \<open>message\<close>.\<close>

definition catchBody :: "testCase \<Rightarrow> jsstring \<Rightarrow> grading \<Rightarrow> grading" where
  "catchBody testCase message g =
     g\<lparr>g_totalMarks := js_add (g_totalMarks g) (tc_marks testCase),
       g_testCaseResults := g_testCaseResults g @
         [\<lparr>r_testCaseId = tc_id testCase, r_status = runtime_error, r_executionTime = 0,
           r_memoryUsed = 0, r_output = [], r_error = message, r_marksAwarded = 0,
           r_maxMarks = tc_marks testCase, r_isHidden = tc_isHidden testCase\<rparr>]\<rparr>"

text \<open>
  One iteration of the loop \<open>for (const testCase of question.testCases)\<close>, with the
  behaviour \<open>cx\<close> of the collaborator during it.
\<close>

definition gradeTestCase ::
  "compilex \<Rightarrow> jsstring \<Rightarrow> string \<Rightarrow> int \<Rightarrow> testCase \<Rightarrow> grading \<Rightarrow> grading" where
  "gradeTestCase cx code language timeLimit testCase g =
     (case executeCode cx code language (Some (tc_input testCase)) timeLimit of
        Inr result \<Rightarrow> tryBody testCase result g
      | Inl message \<Rightarrow> catchBody testCase message g)"

text \<open>The loop; \<open>runs i\<close> is the behaviour of the collaborator during the \<open>i\<close>-th iteration.\<close>

fun gradeLoop ::
  "(nat \<Rightarrow> compilex) \<Rightarrow> jsstring \<Rightarrow> string \<Rightarrow> int \<Rightarrow> nat \<Rightarrow> testCase list \<Rightarrow> grading \<Rightarrow> grading"
  where
  "gradeLoop runs code language timeLimit i [] g = g"
| "gradeLoop runs code language timeLimit i (testCase # rest) g =
     gradeLoop runs code language timeLimit (Suc i) rest
       (gradeTestCase (runs i) code language timeLimit testCase g)"

definition scorePercentage :: "rat \<Rightarrow> rat \<Rightarrow> int" where
  "scorePercentage obtainedMarks totalMarks =
     (if totalMarks > 0 then Math_round (js_mul (js_div obtainedMarks totalMarks) 100) else 0)"

definition grade :: "(nat \<Rightarrow> compilex) \<Rightarrow> question \<Rightarrow> jsstring \<Rightarrow> string \<Rightarrow> grading" where
  "grade runs question code language =
     gradeLoop runs code language (q_timeLimit question) 0 (q_testCases question)
       \<lparr>g_testCaseResults = [], g_totalExecutionTime = 0, g_totalMemoryUsed = 0,
        g_totalMarks = 0, g_obtainedMarks = 0\<rparr>"

text \<open>
  The outer \<open>try\<close> of \<open>processSubmission\<close>. \<open>Inl (message, db)\<close> is a throw with the
  collection as it is at that moment, \<open>Inr db\<close> the normal end.
\<close>

definition processSubmission_try ::
  "db_faults \<Rightarrow> (nat \<Rightarrow> compilex) \<Rightarrow> collection \<Rightarrow> nat \<Rightarrow> question \<Rightarrow> jsstring \<Rightarrow> string
     \<Rightarrow> (jsstring \<times> collection) + collection" where
  "processSubmission_try faults runs db submissionId question code language =
     (case f_find faults of
        Some message \<Rightarrow> Inl (message, db)
      | None \<Rightarrow>
     (case findById db submissionId of
        None \<Rightarrow> Inr db
      | Some found \<Rightarrow>
     (case f_saveRunning faults of
        Some message \<Rightarrow> Inl (message, db)
      | None \<Rightarrow>
        (let submission = pre_save (found\<lparr>s_status := running\<rparr>);
             db1 = store db submission;
             g = grade runs question code language;
             submission = submission
               \<lparr>s_testCaseResults := g_testCaseResults g,
                s_executionTime := g_totalExecutionTime g,
                s_memoryUsed := g_totalMemoryUsed g,
                s_status := completed,
                s_marksAwarded := g_obtainedMarks g,
                s_totalMarks := g_totalMarks g,
                s_scorePercentage := scorePercentage (g_obtainedMarks g) (g_totalMarks g)\<rparr>
         in case f_saveCompleted faults of
              Some message \<Rightarrow> Inl (message, db1)
            | None \<Rightarrow> Inr (store db1 (pre_save submission))))))"

text \<open>
  \<open>processSubmission\<close>: the outer \<open>try\<close> and its \<open>catch\<close>. The first component is the
  message the returned promise rejects with, when a database operation of the \<open>catch\<close>
  throws in its turn.
\<close>

definition processSubmission ::
  "db_faults \<Rightarrow> (nat \<Rightarrow> compilex) \<Rightarrow> collection \<Rightarrow> nat \<Rightarrow> question \<Rightarrow> jsstring \<Rightarrow> string
     \<Rightarrow> jsstring option \<times> collection" where
  "processSubmission faults runs db submissionId question code language =
     (case processSubmission_try faults runs db submissionId question code language of
        Inr db' \<Rightarrow> (None, db')
      | Inl (message, db') \<Rightarrow>
          (case f_catchFind faults of
             Some m \<Rightarrow> (Some m, db')
           | None \<Rightarrow>
          (case findById db' submissionId of
             None \<Rightarrow> (None, db')
           | Some submission \<Rightarrow>
          (case f_catchSave faults of
             Some m \<Rightarrow> (Some m, db')
           | None \<Rightarrow>
               (None, store db' (pre_save (submission\<lparr>s_status := error,
                                                      s_compilationError := message\<rparr>)))))))"

section \<open>Creating a submission: \<open>router.post('/')\<close> in \<open>routes/submissions.js\<close>\<close>

record submit_request =
  req_contestId :: "nat option"
  req_questionId :: "nat option"
  req_code :: jsstring
  req_language :: string
  req_user :: nat

datatype response = Response nat string

text \<open>\<open>new Submission({...})\<close> with the defaults of the schema; \<open>i\<close> is the new \<open>_id\<close>.\<close>

definition newSubmission ::
  "nat \<Rightarrow> nat \<Rightarrow> nat \<Rightarrow> nat \<Rightarrow> jsstring \<Rightarrow> string \<Rightarrow> rat \<Rightarrow> int \<Rightarrow> submission" where
  "newSubmission i contestId questionId userId code language maxMarks now =
     \<lparr>s_id = i, s_contestId = contestId, s_questionId = questionId, s_userId = userId,
      s_code = code, s_language = language, s_status = pending, s_testCaseResults = [],
      s_totalMarks = 0, s_marksAwarded = 0, s_scorePercentage = 0, s_maxMarks = maxMarks,
      s_passedTestCases = 0, s_totalTestCases = 0, s_executionTime = 0, s_memoryUsed = 0,
      s_submittedAt = now, s_compilationError = []\<rparr>"

text \<open>A new \<open>_id\<close> is one no stored document has.\<close>

definition fresh_id :: "collection \<Rightarrow> nat" where
  "fresh_id db = Suc (foldr max (map s_id db) 0)"

text \<open>
  The handler up to and including the test of the attempt limit: the response that ends
  it there, or the question to grade. This part reads the collection and does not
  change it.
\<close>

definition submit_decide ::
  "contest list \<Rightarrow> db_faults \<Rightarrow> int \<Rightarrow> submit_request \<Rightarrow> collection \<Rightarrow> response + question"
  where
  "submit_decide contests faults now req db =
     (if req_contestId req = None \<or> req_questionId req = None \<or> req_code req = [] \<or>
         req_language req = []
      then Inl (Response 400 ''All fields are required'')
      else
     (case f_contestFind faults of
        Some m \<Rightarrow> Inl (Response 500 ''Failed to submit code'')
      | None \<Rightarrow>
     (case find (\<lambda>c. c_id c = the (req_contestId req)) contests of
        None \<Rightarrow> Inl (Response 404 ''Contest not found'')
      | Some contest \<Rightarrow>
     (case find (\<lambda>q. q_id q = the (req_questionId req)) (c_questions contest) of
        None \<Rightarrow> Inl (Response 404 ''Question not found'')
      | Some question \<Rightarrow>
        if \<not> c_isActive contest \<or> c_endTime contest < now
        then Inl (Response 403 ''Contest is not accessible'')
        else if c_startTime contest > now
        then Inl (Response 403 ''Contest has not started yet'')
        else if req_language req \<notin> set (c_allowedLanguages contest)
        then Inl (Response 400 ''Programming language not allowed for this contest'')
        else
       (case f_count faults of
          Some m \<Rightarrow> Inl (Response 500 ''Failed to submit code'')
        | None \<Rightarrow>
          if of_int (countDocuments db (the (req_contestId req)) (the (req_questionId req))
                       (req_user req)) \<ge> c_maxAttempts contest
          then Inl (Response 403 ''Maximum submission attempts reached'')
          else Inr question)))))"

text \<open>
  The rest of the handler, from \<open>new Submission\<close> on: the record is saved, graded and
  read back. \<open>db\<close> is the collection as it is when the record is saved.
\<close>

definition submit_create ::
  "db_faults \<Rightarrow> (nat \<Rightarrow> compilex) \<Rightarrow> int \<Rightarrow> submit_request \<Rightarrow> question \<Rightarrow> collection
     \<Rightarrow> response \<times> collection" where
  "submit_create faults runs now req question db =
     (case f_create faults of
        Some m \<Rightarrow> (Response 500 ''Failed to submit code'', db)
      | None \<Rightarrow>
       (let submission =
              pre_save (newSubmission (fresh_id db) (the (req_contestId req))
                          (the (req_questionId req)) (req_user req) (req_code req)
                          (req_language req) (q_totalMarks question) now);
            db1 = store db submission
        in case processSubmission faults runs db1 (s_id submission) question
                  (req_code req) (req_language req) of
             (Some m, db2) \<Rightarrow> (Response 201 ''Code submitted but processing failed'', db2)
           | (None, db2) \<Rightarrow>
              (case f_refetch faults of
                 Some m \<Rightarrow> (Response 201 ''Code submitted but processing failed'', db2)
               | None \<Rightarrow>
              (case findById db2 (s_id submission) of
                 None \<Rightarrow> (Response 201 ''Code submitted but processing failed'', db2)
               | Some updatedSubmission \<Rightarrow>
                   (Response 201 ''Code submitted successfully'', db2)))))"

text \<open>One request handled from its arrival to its response with nothing in between.\<close>

definition submit ::
  "contest list \<Rightarrow> db_faults \<Rightarrow> (nat \<Rightarrow> compilex) \<Rightarrow> int \<Rightarrow> submit_request \<Rightarrow> collection
     \<Rightarrow> response \<times> collection" where
  "submit contests faults runs now req db =
     (case submit_decide contests faults now req db of
        Inl response \<Rightarrow> (response, db)
      | Inr question \<Rightarrow> submit_create faults runs now req question db)"

text \<open>
  The handler is asynchronous: between its \<open>await\<close> of \<open>countDocuments\<close> and its
  \<open>await\<close> of \<open>save\<close> another request may run. Two requests of which both pass the
  test of the attempt limit on the collection \<open>db\<close> before either saves its record:
\<close>

definition submit_interleaved ::
  "contest list \<Rightarrow> db_faults \<Rightarrow> (nat \<Rightarrow> compilex) \<Rightarrow> int \<Rightarrow> submit_request \<Rightarrow> submit_request
     \<Rightarrow> collection \<Rightarrow> (response \<times> response) \<times> collection" where
  "submit_interleaved contests faults runs now req1 req2 db =
     (case (submit_decide contests faults now req1 db,
            submit_decide contests faults now req2 db) of
        (Inl r1, Inl r2) \<Rightarrow> ((r1, r2), db)
      | (Inl r1, Inr q2) \<Rightarrow>
          (case submit_create faults runs now req2 q2 db of (r2, db2) \<Rightarrow> ((r1, r2), db2))
      | (Inr q1, Inl r2) \<Rightarrow>
          (case submit_create faults runs now req1 q1 db of (r1, db1) \<Rightarrow> ((r1, r2), db1))
      | (Inr q1, Inr q2) \<Rightarrow>
          (case submit_create faults runs now req1 q1 db of
             (r1, db1) \<Rightarrow>
               (case submit_create faults runs now req2 q2 db1 of
                  (r2, db2) \<Rightarrow> ((r1, r2), db2))))"

section \<open>The leaderboard: \<open>router.get('/admin/:id/leaderboard')\<close> in \<open>routes/contests.js\<close>\<close>

record userScore =
  us_userId :: nat
  us_totalScore :: rat
  us_problemsSolved :: int
  us_totalTime :: int
  us_lastSubmission :: int
  us_maxPossibleScore :: rat
  us_questionScores :: "nat \<rightharpoonup> rat"

text \<open>
  The callback of \<open>submissions.forEach\<close>, in three parts: the object stored for a user
  seen for the first time; the statements that then update the object of the user in
  place, from \<open>const currentQuestionScore\<close> on; and the callback itself.
  \<open>userScores\<close> is the \<open>Map\<close> in insertion order; \<open>userExists\<close> tells whether
  \<open>populate\<close> found the user of a submission (\<open>submission.userId\<close> is \<open>null\<close>
  otherwise).
\<close>

definition initialScore :: "submission \<Rightarrow> userScore" where
  "initialScore submission =
     \<lparr>us_userId = s_userId submission, us_totalScore = 0, us_problemsSolved = 0,
      us_totalTime = 0, us_lastSubmission = s_submittedAt submission,
      us_maxPossibleScore = 0, us_questionScores = Map.empty\<rparr>"

definition updateScore :: "submission \<Rightarrow> userScore \<Rightarrow> userScore" where
  "updateScore submission userScore =
     (let questionId = s_questionId submission;
          currentQuestionScore =
            (case us_questionScores userScore questionId of
               None \<Rightarrow> 0 | Some v \<Rightarrow> or_zero v);
          userScore =
            (if s_marksAwarded submission > currentQuestionScore
             then userScore
                    \<lparr>us_totalScore :=
                       js_add (us_totalScore userScore)
                              (js_sub (s_marksAwarded submission) currentQuestionScore),
                     us_questionScores :=
                       (us_questionScores userScore)(questionId \<mapsto> s_marksAwarded submission),
                     us_problemsSolved :=
                       (if currentQuestionScore = 0 \<and> s_marksAwarded submission > 0
                        then us_problemsSolved userScore + 1
                        else us_problemsSolved userScore)\<rparr>
             else userScore)
      in userScore\<lparr>us_totalTime := us_totalTime userScore +
                                      or_zero (s_executionTime submission),
                    us_lastSubmission := s_submittedAt submission\<rparr>)"

definition tally ::
  "(nat \<Rightarrow> bool) \<Rightarrow> submission \<Rightarrow> (nat \<times> userScore) list \<Rightarrow> (nat \<times> userScore) list" where
  "tally userExists submission userScores =
     (if \<not> userExists (s_userId submission) then userScores
      else
       (let userId = s_userId submission;
            userScores =
              (if map_of userScores userId = None
               then userScores @ [(userId, initialScore submission)]
               else userScores)
        in map (\<lambda>(k, v). if k = userId then (k, updateScore submission v) else (k, v))
               userScores))"

text \<open>The comparator given to \<open>sort\<close>.\<close>

definition compare_entries :: "userScore \<Rightarrow> userScore \<Rightarrow> rat" where
  "compare_entries a b =
     (if us_totalScore b \<noteq> us_totalScore a then js_sub (us_totalScore b) (us_totalScore a)
      else if us_problemsSolved b \<noteq> us_problemsSolved a
      then of_int (us_problemsSolved b - us_problemsSolved a)
      else of_int (us_totalTime a - us_totalTime b))"

text \<open>
  \<open>Array.prototype.sort\<close> with a comparator is a stable sort: \<open>a\<close> stays before \<open>b\<close>
  unless the comparator is positive on them. It is modelled as insertion from the right.
\<close>

fun insert_sorted :: "userScore \<Rightarrow> userScore list \<Rightarrow> userScore list" where
  "insert_sorted a [] = [a]"
| "insert_sorted a (b # bs) =
     (if compare_entries a b \<le> 0 then a # b # bs else b # insert_sorted a bs)"

fun sort_entries :: "userScore list \<Rightarrow> userScore list" where
  "sort_entries [] = []"
| "sort_entries (a # rest) = insert_sorted a (sort_entries rest)"

text \<open>
  The handler from \<open>const userScores = new Map()\<close> on; \<open>submissions\<close> is the result of
  the query, in the order the database returned it.
\<close>

definition leaderboard ::
  "(nat \<Rightarrow> bool) \<Rightarrow> contest \<Rightarrow> submission list \<Rightarrow> userScore list" where
  "leaderboard userExists contest submissions =
     (let userScores = fold (tally userExists) submissions [];
          maxPossibleScore =
            foldl (\<lambda>total question. js_add total (q_totalMarks question)) 0 (c_questions contest);
          userScores =
            map (\<lambda>(k, v). (k, v\<lparr>us_maxPossibleScore := maxPossibleScore\<rparr>)) userScores
      in sort_entries (map snd userScores))"

section \<open>The Python preamble of \<open>executeCode\<close>\<close>

text \<open>
  The function \<open>input()\<close> that the preamble defines in front of the submitted code, with
  the global \<open>input_index\<close> as explicit state: the value returned and the new index.
\<close>

definition py_input :: "jsstring list \<Rightarrow> nat \<Rightarrow> jsstring \<times> nat" where
  "py_input input_lines input_index =
     (if input_index < length input_lines
      then (input_lines ! input_index, input_index + 1)
      else ([], input_index))"

text \<open>The values returned by \<open>n\<close> calls in a row.\<close>

fun py_inputs :: "jsstring list \<Rightarrow> nat \<Rightarrow> nat \<Rightarrow> jsstring list" where
  "py_inputs input_lines input_index 0 = []"
| "py_inputs input_lines input_index (Suc n) =
     (case py_input input_lines input_index of
        (line, input_index') \<Rightarrow> line # py_inputs input_lines input_index' n)"

section \<open>Notions used to state the properties\<close>

text \<open>The result record that one iteration of the grading loop appends.\<close>

definition resultOf ::
  "compilex \<Rightarrow> jsstring \<Rightarrow> string \<Rightarrow> int \<Rightarrow> testCase \<Rightarrow> testCaseResult" where
  "resultOf cx code language timeLimit testCase =
     last (g_testCaseResults
             (gradeTestCase cx code language timeLimit testCase
                \<lparr>g_testCaseResults = [], g_totalExecutionTime = 0, g_totalMemoryUsed = 0,
                 g_totalMarks = 0, g_obtainedMarks = 0\<rparr>))"

text \<open>The list that \<open>executeCode\<close> splices into the Python preamble as \<open>input_lines\<close>.\<close>

definition preamble_lines :: "jsstring option \<Rightarrow> jsstring list" where
  "preamble_lines input = split_nl (trim (or_empty input))"

text \<open>A collaborator that answers every call with \<open>data\<close> after \<open>t\<close> milliseconds.\<close>

definition replying :: "compilex_data \<Rightarrow> int \<Rightarrow> compilex" where
  "replying d t call = Returned d t"

text \<open>A collaborator that throws on every call.\<close>

definition throwing :: "jsstring \<Rightarrow> compilex" where
  "throwing message call = Threw message"

text \<open>
  The order of the leaderboard: a higher \<open>totalScore\<close> first, then more
  \<open>problemsSolved\<close>, then a lower \<open>totalTime\<close>.
\<close>

definition ranks_before :: "userScore \<Rightarrow> userScore \<Rightarrow> bool" where
  "ranks_before a b \<longleftrightarrow>
     us_totalScore a > us_totalScore b \<or>
     (us_totalScore a = us_totalScore b \<and>
      (us_problemsSolved a > us_problemsSolved b \<or>
       (us_problemsSolved a = us_problemsSolved b \<and> us_totalTime a \<le> us_totalTime b)))"

text \<open>
  The submissions of a user, the questions among them, and the marks of the user's
  submissions to one question.
\<close>

definition userSubmissions :: "nat \<Rightarrow> submission list \<Rightarrow> submission list" where
  "userSubmissions u subs = filter (\<lambda>s. s_userId s = u) subs"

definition userQuestions :: "nat \<Rightarrow> submission list \<Rightarrow> nat list" where
  "userQuestions u subs = remdups (map s_questionId (userSubmissions u subs))"

definition userMarks :: "nat \<Rightarrow> nat \<Rightarrow> submission list \<Rightarrow> rat list" where
  "userMarks u q subs =
     map s_marksAwarded (filter (\<lambda>s. s_questionId s = q) (userSubmissions u subs))"

text \<open>
  The best marks for a question among some submissions; 0 when none of them is for the
  question.
\<close>

definition bestMarks :: "nat \<Rightarrow> submission list \<Rightarrow> rat" where
  "bestMarks q ys =
     Max (insert 0 (set (map s_marksAwarded (filter (\<lambda>s. s_questionId s = q) ys))))"

text \<open>
  What the object of a user holds, whatever the marks, once the submissions \<open>ys\<close> of
  the user have been tallied: the best marks of each question with positive best marks,
  their number, and the time of all of \<open>ys\<close>.
\<close>

definition score_invariant :: "submission list \<Rightarrow> userScore \<Rightarrow> bool" where
  "score_invariant ys e \<longleftrightarrow>
     (\<forall>q. us_questionScores e q =
            (if 0 < bestMarks q ys then Some (bestMarks q ys) else None)) \<and>
     us_problemsSolved e = int (card (dom (us_questionScores e))) \<and>
     us_totalTime e = sum_list (map s_executionTime ys)"

text \<open>
  What it holds besides when the marks of \<open>ys\<close> are whole numbers, not negative, with
  a sum below \<open>2^53\<close>: as \<open>totalScore\<close> the sum of the best marks.
\<close>

definition total_invariant :: "submission list \<Rightarrow> userScore \<Rightarrow> bool" where
  "total_invariant ys e \<longleftrightarrow>
     us_totalScore e = (\<Sum>q\<in>dom (us_questionScores e). the (us_questionScores e q)) \<and>
     us_totalScore e \<le> sum_list (map s_marksAwarded ys)"


text \<open>
  What the \<open>Map\<close> holds once the submissions \<open>xs\<close> have been tallied: one object for
  each user that \<open>populate\<close> found, built from the submissions of that user in order.
\<close>

definition tally_invariant ::
  "(nat \<Rightarrow> bool) \<Rightarrow> submission list \<Rightarrow> (nat \<times> userScore) list \<Rightarrow> bool" where
  "tally_invariant userExists xs us \<longleftrightarrow>
     distinct (map fst us) \<and>
     (\<forall>(u, e)\<in>set us.
        userExists u \<and> userSubmissions u xs \<noteq> [] \<and>
        e = fold updateScore (userSubmissions u xs) (initialScore (hd (userSubmissions u xs)))) \<and>
     (\<forall>s\<in>set xs. userExists (s_userId s) \<longrightarrow> s_userId s \<in> fst ` set us)"

text \<open>The fields of a stored submission that identify it and that \<open>countDocuments\<close> reads.\<close>

definition doc_key :: "submission \<Rightarrow> nat \<times> nat \<times> nat \<times> nat" where
  "doc_key s = (s_id s, s_contestId s, s_questionId s, s_userId s)"

text \<open>The same behaviour of the collaborator in every iteration of the loop.\<close>

definition each_run :: "compilex \<Rightarrow> nat \<Rightarrow> compilex" where
  "each_run cx i = cx"

definition no_faults :: db_faults where
  "no_faults =
     \<lparr>f_contestFind = None, f_count = None, f_create = None, f_find = None,
      f_saveRunning = None, f_saveCompleted = None, f_catchFind = None, f_catchSave = None,
      f_refetch = None\<rparr>"

text \<open>
  A question with two test cases of five marks each, the second one hidden, a contest
  that holds it, and a pending submission to it.
\<close>

definition ex_question :: question where
  "ex_question =
     \<lparr>q_id = 1,
      q_testCases =
        [\<lparr>tc_id = 1, tc_input = ascii ''2 3'', tc_expectedOutput = ascii ''5'', tc_marks = 5,
          tc_isHidden = False\<rparr>,
         \<lparr>tc_id = 2, tc_input = ascii ''10 20'', tc_expectedOutput = ascii ''5'', tc_marks = 5,
          tc_isHidden = True\<rparr>],
      q_timeLimit = 2000, q_totalMarks = 10\<rparr>"

definition ex_contest :: contest where
  "ex_contest =
     \<lparr>c_id = 1, c_startTime = 100, c_endTime = 200, c_questions = [ex_question],
      c_isActive = True, c_allowedLanguages = [''c'', ''cpp'', ''java'', ''python''],
      c_maxAttempts = 1\<rparr>"

text \<open>A graded submission to the example contest: its id, user, question, marks and time.\<close>

definition ex_graded :: "nat \<Rightarrow> nat \<Rightarrow> nat \<Rightarrow> rat \<Rightarrow> int \<Rightarrow> submission" where
  "ex_graded i user questionId marks time =
     (newSubmission i 1 questionId user [] ''python'' 10 150)
       \<lparr>s_status := completed, s_marksAwarded := marks, s_executionTime := time\<rparr>"

definition everyone :: "nat \<Rightarrow> bool" where
  "everyone u = True"

definition ex_submission :: submission where
  "ex_submission = newSubmission 1 1 1 7 (ascii ''print(5)'') ''python'' 10 150"

text \<open>A request of user 7 for the question of the example contest.\<close>

definition ex_request :: submit_request where
  "ex_request =
     \<lparr>req_contestId = Some 1, req_questionId = Some 1, req_code = ascii ''print(5)'',
      req_language = ''python'', req_user = 7\<rparr>"

text \<open>
  Replies of the collaborator: an answer in time, the same answer between blanks and
  blank lines, a late answer, a late failure, a wrong answer.
\<close>

definition ex_in_time :: compilex where
  "ex_in_time = replying \<lparr>d_error = None, d_output = Some (ascii ''5'' @ [0x000A])\<rparr> 12"

definition ex_padded :: compilex where
  "ex_padded =
     replying \<lparr>d_error = None, d_output = Some (ascii '' 5 '' @ [0x000A, 0x000A])\<rparr> 12"

definition ex_late :: compilex where
  "ex_late = replying \<lparr>d_error = None, d_output = Some (ascii ''5'' @ [0x000A])\<rparr> 5000"

definition ex_late_failure :: compilex where
  "ex_late_failure =
     replying \<lparr>d_error = Some (ascii ''Segmentation fault''), d_output = None\<rparr> 5000"

definition ex_wrong :: compilex where
  "ex_wrong = replying \<lparr>d_error = None, d_output = Some (ascii ''4'')\<rparr> 12"



section \<open>Rounding to a double\<close>

lemma round_ties_even_le: "x \<le> of_int N \<Longrightarrow> round_ties_even x \<le> N"
proof -
  assume h: "x \<le> of_int N"
  show ?thesis
  proof (cases "x = of_int N")
    case True
    then show ?thesis by (simp add: round_ties_even_def)
  next
    case False
    with h have "x < of_int N" by simp
    then have "\<lfloor>x\<rfloor> < N" by (simp add: floor_less_iff)
    then show ?thesis by (simp add: round_ties_even_def Let_def)
  qed
qed

lemma round_ties_even_ge: "of_int N \<le> x \<Longrightarrow> N \<le> round_ties_even x"
proof -
  assume "of_int N \<le> x"
  then have "N \<le> \<lfloor>x\<rfloor>" by (simp add: le_floor_iff)
  then show ?thesis by (simp add: round_ties_even_def Let_def)
qed

lemma binade_le:
  assumes x: "0 < x"
  shows "power_int 2 (binade x) \<le> x"
proof -
  obtain p q where pq: "quotient_of x = (p, q)" by (cases "quotient_of x")
  have q0: "0 < q" using pq by (rule quotient_of_denom_pos)
  have xd: "x = of_int p / of_int q" using pq by (rule quotient_of_div)
  have p0: "0 < p"
  proof (rule ccontr)
    assume "\<not> 0 < p"
    then have "of_int p / (of_int q :: rat) \<le> 0" using q0 by (simp add: divide_le_0_iff)
    with x xd show False by simp
  qed
  let ?d = "bitlen p - bitlen q"
  have ax: "\<bar>x\<bar> = x" using x by simp
  show ?thesis
  proof (cases "power_int 2 ?d \<le> x")
    case True
    then show ?thesis by (simp add: binade_def ax pq Let_def)
  next
    case False
    then have b: "binade x = ?d - 1" by (simp add: binade_def ax pq Let_def)
    have bp: "1 \<le> bitlen p" using p0 by (simp add: bitlen_alt_def)
    have bq: "0 \<le> bitlen q" by (rule bitlen_nonneg)
    have lo: "(2::int) ^ nat (bitlen p - 1) \<le> p" using bitlen_bounds [OF p0] by simp
    have hi: "q < 2 ^ nat (bitlen q)" using bitlen_bounds [OF q0] by simp
    have lo': "(2::rat) ^ nat (bitlen p - 1) \<le> of_int p"
    proof -
      have "(of_int ((2::int) ^ nat (bitlen p - 1)) :: rat) \<le> of_int p"
        using lo by (simp only: of_int_le_iff)
      then show ?thesis by simp
    qed
    have hi': "(of_int q :: rat) \<le> 2 ^ nat (bitlen q)"
    proof -
      have "(of_int q :: rat) < of_int ((2::int) ^ nat (bitlen q))"
        using hi by (simp only: of_int_less_iff)
      then show ?thesis by simp
    qed
    have "power_int (2::rat) (?d - 1) = power_int 2 (bitlen p - 1) / power_int 2 (bitlen q)"
    proof -
      have "?d - 1 = (bitlen p - 1) - bitlen q" by simp
      then show ?thesis by (simp only: power_int_diff [of "2::rat"]) (simp add: power_int_diff)
    qed
    also have "\<dots> = 2 ^ nat (bitlen p - 1) / 2 ^ nat (bitlen q)"
      using bp bq by (simp add: power_int_def)
    also have "\<dots> \<le> of_int p / 2 ^ nat (bitlen q)"
      using lo' by (simp add: divide_right_mono)
    also have "\<dots> \<le> of_int p / of_int q"
      using hi' p0 q0 by (simp add: divide_left_mono)
    finally show ?thesis using b xd by simp
  qed
qed

lemma fl_nonneg: "0 \<le> x \<Longrightarrow> 0 \<le> fl x"
proof (cases "x = 0")
  case True
  then show ?thesis by (simp add: fl_def)
next
  case False
  assume "0 \<le> x"
  let ?u = "power_int (2::rat) (binade x - 52)"
  have u: "0 < ?u" by simp
  then have "of_int 0 \<le> x / ?u" using \<open>0 \<le> x\<close> by simp
  then have "0 \<le> round_ties_even (x / ?u)" by (rule round_ties_even_ge)
  then show ?thesis using False u by (simp add: fl_def Let_def)
qed



lemma round_ties_even_of_int: "round_ties_even (of_int n) = n"
  by (simp add: round_ties_even_def)

lemma round_ties_even_mono: "x \<le> y \<Longrightarrow> round_ties_even x \<le> round_ties_even y"
proof (cases "\<lfloor>x\<rfloor> = \<lfloor>y\<rfloor>")
  case True
  assume "x \<le> y"
  then have "x - of_int \<lfloor>y\<rfloor> \<le> y - of_int \<lfloor>y\<rfloor>" by simp
  then show ?thesis using True by (auto simp: round_ties_even_def Let_def)
next
  case False
  assume "x \<le> y"
  then have "\<lfloor>x\<rfloor> \<le> \<lfloor>y\<rfloor>" by (rule floor_mono)
  with False have "\<lfloor>x\<rfloor> + 1 \<le> \<lfloor>y\<rfloor>" by simp
  moreover have "round_ties_even x \<le> \<lfloor>x\<rfloor> + 1" by (simp add: round_ties_even_def Let_def)
  moreover have "\<lfloor>y\<rfloor> \<le> round_ties_even y" by (simp add: round_ties_even_def Let_def)
  ultimately show ?thesis by linarith
qed


lemma binade_abs: "binade \<bar>x\<bar> = binade x"
  by (simp add: binade_def)

lemma binade_gt:
  assumes x: "0 < x"
  shows "x < power_int 2 (binade x + 1)"
proof -
  obtain p q where pq: "quotient_of x = (p, q)" by (cases "quotient_of x")
  have q0: "0 < q" using pq by (rule quotient_of_denom_pos)
  have xd: "x = of_int p / of_int q" using pq by (rule quotient_of_div)
  have p0: "0 < p"
  proof (rule ccontr)
    assume "\<not> 0 < p"
    then have "of_int p / (of_int q :: rat) \<le> 0" using q0 by (simp add: divide_le_0_iff)
    with x xd show False by simp
  qed
  let ?d = "bitlen p - bitlen q"
  have ax: "\<bar>x\<bar> = x" using x by simp
  show ?thesis
  proof (cases "power_int 2 ?d \<le> x")
    case False
    then show ?thesis by (simp add: binade_def ax pq Let_def)
  next
    case True
    then have b: "binade x = ?d" by (simp add: binade_def ax pq Let_def)
    have bp: "0 \<le> bitlen p" by (rule bitlen_nonneg)
    have bq: "1 \<le> bitlen q" using q0 by (simp add: bitlen_alt_def)
    have hi: "p < 2 ^ nat (bitlen p)" using bitlen_bounds [OF p0] by simp
    have lo: "(2::int) ^ nat (bitlen q - 1) \<le> q" using bitlen_bounds [OF q0] by simp
    have hi': "(of_int p :: rat) < 2 ^ nat (bitlen p)"
    proof -
      have "(of_int p :: rat) < of_int ((2::int) ^ nat (bitlen p))"
        using hi by (simp only: of_int_less_iff)
      then show ?thesis by simp
    qed
    have lo': "(2::rat) ^ nat (bitlen q - 1) \<le> of_int q"
    proof -
      have "(of_int ((2::int) ^ nat (bitlen q - 1)) :: rat) \<le> of_int q"
        using lo by (simp only: of_int_le_iff)
      then show ?thesis by simp
    qed
    have "of_int p / (of_int q :: rat) \<le> of_int p / 2 ^ nat (bitlen q - 1)"
      using lo' p0 q0 by (intro divide_left_mono) simp_all
    also have "\<dots> < 2 ^ nat (bitlen p) / 2 ^ nat (bitlen q - 1)"
      using hi' by (simp add: divide_strict_right_mono)
    also have "\<dots> = power_int (2::rat) (bitlen p) / power_int 2 (bitlen q - 1)"
      using bp bq by (simp add: power_int_def)
    also have "\<dots> = power_int (2::rat) (bitlen p - (bitlen q - 1))"
      by (simp add: power_int_diff)
    also have "bitlen p - (bitlen q - 1) = ?d + 1" by simp
    finally show ?thesis using b xd by simp
  qed
qed

lemma binade_unique:
  assumes "0 < x" and lo: "power_int 2 e \<le> x" and hi: "x < power_int 2 (e + 1)"
  shows "binade x = e"
proof -
  have a: "power_int (2::rat) (binade x) < power_int 2 (e + 1)"
    using binade_le [OF assms(1)] hi by simp
  have b: "power_int (2::rat) e < power_int 2 (binade x + 1)"
    using binade_gt [OF assms(1)] lo by simp
  have "binade x < e + 1"
  proof (rule ccontr)
    assume "\<not> binade x < e + 1"
    then have "power_int (2::rat) (e + 1) \<le> power_int 2 (binade x)"
      by (intro power_int_increasing) simp_all
    with a show False by simp
  qed
  moreover have "e < binade x + 1"
  proof (rule ccontr)
    assume "\<not> e < binade x + 1"
    then have "power_int (2::rat) (binade x + 1) \<le> power_int 2 e"
      by (intro power_int_increasing) simp_all
    with b show False by simp
  qed
  ultimately show ?thesis by simp
qed

lemma ulp_scale: "power_int (2::rat) (e - 52) * 2 ^ 52 = power_int 2 e"
proof -
  have "power_int (2::rat) ((e - 52) + 52) = power_int 2 (e - 52) * power_int 2 52"
    by (rule power_int_add) simp
  then show ?thesis by simp
qed

lemma ulp_scale': "of_int (2 ^ 52) * power_int (2::rat) (e - 52) = power_int 2 e"
  using ulp_scale [of e] by (simp add: mult.commute)

lemma power_int_2_Suc: "power_int (2::rat) (e + 1) = 2 * power_int 2 e"
  by (simp add: power_int_add)

lemma scaled_bounds:
  assumes x: "0 < x"
  shows "of_int (2 ^ 52) \<le> x / power_int 2 (binade x - 52)"
    and "x / power_int 2 (binade x - 52) \<le> of_int (2 ^ 53)"
proof -
  let ?u = "power_int (2::rat) (binade x - 52)"
  have u0: "0 < ?u" by simp
  have "2 ^ 52 * ?u \<le> x"
    using binade_le [OF x] ulp_scale [of "binade x"] by (simp add: mult.commute)
  then show "of_int (2 ^ 52) \<le> x / ?u" using u0 by (simp add: pos_le_divide_eq)
  have "x < 2 * (?u * 2 ^ 52)"
    using binade_gt [OF x] by (simp only: ulp_scale power_int_2_Suc)
  then have "x \<le> 2 ^ 53 * ?u" by simp
  then show "x / ?u \<le> of_int (2 ^ 53)" using u0 by (simp add: pos_divide_le_eq)
qed

lemma fl_positive:
  assumes x: "0 < x"
  shows "power_int 2 (binade x) \<le> fl x" and "fl x \<le> power_int 2 (binade x + 1)"
proof -
  let ?u = "power_int (2::rat) (binade x - 52)"
  let ?n = "round_ties_even (x / ?u)"
  have u0: "0 < ?u" by simp
  have f: "fl x = of_int ?n * ?u" using x by (simp add: fl_def Let_def)
  have "2 ^ 52 \<le> ?n" using scaled_bounds(1) [OF x] by (rule round_ties_even_ge)
  then have "(of_int (2 ^ 52) :: rat) \<le> of_int ?n" by (simp only: of_int_le_iff)
  then have "of_int (2 ^ 52) * ?u \<le> of_int ?n * ?u" using u0 by (simp only: mult_le_cancel_right_pos)
  then show "power_int 2 (binade x) \<le> fl x" by (simp only: ulp_scale' f)
  have "?n \<le> 2 ^ 53" using scaled_bounds(2) [OF x] by (rule round_ties_even_le)
  then have "(of_int ?n :: rat) \<le> of_int (2 ^ 53)" by (simp only: of_int_le_iff)
  then have "of_int ?n * ?u \<le> of_int (2 ^ 53) * ?u" using u0 by (simp only: mult_le_cancel_right_pos)
  also have "of_int (2 ^ 53) * ?u = 2 * (?u * 2 ^ 52)" by simp
  also have "\<dots> = power_int 2 (binade x + 1)" by (simp only: ulp_scale power_int_2_Suc)
  finally show "fl x \<le> power_int 2 (binade x + 1)" by (simp only: f)
qed

lemma fl_pos: "0 < x \<Longrightarrow> 0 < fl x"
proof -
  assume x: "0 < x"
  have "(0::rat) < power_int 2 (binade x)" by simp
  also have "\<dots> \<le> fl x" using x by (rule fl_positive(1))
  finally show ?thesis .
qed

lemma fl_neg: "x < 0 \<Longrightarrow> fl x < 0"
proof -
  assume x: "x < 0"
  let ?u = "power_int (2::rat) (binade x - 52)"
  have u0: "0 < ?u" by simp
  have b: "binade (- x) = binade x" using binade_abs [of x] x by simp
  have "of_int (2 ^ 52) \<le> (- x) / ?u" using scaled_bounds(1) [of "- x"] x b by simp
  then have "x / ?u \<le> of_int (- (2 ^ 52))" by simp
  then have "round_ties_even (x / ?u) \<le> - (2 ^ 52)" by (rule round_ties_even_le)
  then have "round_ties_even (x / ?u) < 0" by simp
  then have "(of_int (round_ties_even (x / ?u)) :: rat) < 0" by (simp only: of_int_less_0_iff)
  then have "of_int (round_ties_even (x / ?u)) * ?u < 0" using u0 by (simp add: mult_less_0_iff)
  then show ?thesis using x by (simp add: fl_def Let_def)
qed

lemma fl_zero: "fl 0 = 0"
  by (simp add: fl_def)

lemma fl_le_zero_iff: "fl x \<le> 0 \<longleftrightarrow> x \<le> 0"
proof (cases "x = 0")
  case True
  then show ?thesis by (simp add: fl_zero)
next
  case False
  then consider "x < 0" | "0 < x" by linarith
  then show ?thesis
  proof cases
    case 1
    then show ?thesis using fl_neg [of x] by simp
  next
    case 2
    then show ?thesis using fl_pos [of x] by simp
  qed
qed

lemma fl_exact:
  assumes x: "0 < x" and n: "x / power_int 2 (binade x - 52) = of_int n"
  shows "fl x = x"
proof -
  let ?u = "power_int (2::rat) (binade x - 52)"
  have u0: "?u \<noteq> 0" by simp
  have "fl x = of_int (round_ties_even (of_int n)) * ?u"
    using x n by (simp add: fl_def Let_def)
  also have "\<dots> = (x / ?u) * ?u" by (simp only: round_ties_even_of_int n)
  also have "\<dots> = x" using u0 by simp
  finally show ?thesis .
qed

lemma fl_idem: "0 \<le> x \<Longrightarrow> fl (fl x) = fl x"
proof (cases "x = 0")
  case True
  then show ?thesis by (simp add: fl_zero)
next
  case False
  assume "0 \<le> x"
  with False have x: "0 < x" by simp
  let ?e = "binade x"
  let ?u = "power_int (2::rat) (?e - 52)"
  let ?n = "round_ties_even (x / ?u)"
  have u0: "0 < ?u" by simp
  have f: "fl x = of_int ?n * ?u" using x by (simp add: fl_def Let_def)
  have y0: "0 < fl x" using x by (rule fl_pos)
  have lo: "power_int 2 ?e \<le> fl x" using x by (rule fl_positive(1))
  have hi: "fl x \<le> power_int 2 (?e + 1)" using x by (rule fl_positive(2))
  show ?thesis
  proof (cases "fl x < power_int 2 (?e + 1)")
    case True
    have "binade (fl x) = ?e" using y0 lo True by (rule binade_unique)
    moreover have "fl x / ?u = of_int ?n" using u0 by (simp add: f)
    ultimately show ?thesis using y0 by (intro fl_exact [of _ ?n]) simp_all
  next
    case False
    with hi have eq: "fl x = power_int 2 (?e + 1)" by simp
    have "fl x < power_int 2 ((?e + 1) + 1)"
      by (simp only: eq power_int_2_Suc) simp
    then have b: "binade (fl x) = ?e + 1" using y0 eq by (intro binade_unique) simp_all
    have "power_int (2::rat) ((?e + 1) - 52) * 2 ^ 52 = power_int 2 (?e + 1)"
      by (rule ulp_scale)
    then have "fl x / power_int 2 ((?e + 1) - 52) = of_int (2 ^ 52)"
      by (simp add: eq field_simps)
    then show ?thesis using y0 b by (intro fl_exact [of _ "2 ^ 52"]) simp_all
  qed
qed

lemma fl_mono: "0 \<le> x \<Longrightarrow> x \<le> y \<Longrightarrow> fl x \<le> fl y"
proof (cases "x = 0")
  case True
  assume "0 \<le> x" "x \<le> y"
  then have "0 \<le> fl y" by (intro fl_nonneg) simp
  then show ?thesis using True by (simp add: fl_zero)
next
  case False
  assume "0 \<le> x" and xy: "x \<le> y"
  with False have x: "0 < x" by simp
  then have y: "0 < y" using xy by simp
  let ?u = "power_int (2::rat) (binade x - 52)"
  have u0: "0 < ?u" by simp
  consider "binade x = binade y" | "binade x < binade y" | "binade y < binade x" by linarith
  then show ?thesis
  proof cases
    case 1
    have "x / ?u \<le> y / ?u" using xy u0 by (simp add: divide_right_mono)
    then have "round_ties_even (x / ?u) \<le> round_ties_even (y / ?u)"
      by (rule round_ties_even_mono)
    then have "(of_int (round_ties_even (x / ?u)) :: rat) \<le> of_int (round_ties_even (y / ?u))"
      by (simp only: of_int_le_iff)
    then have "of_int (round_ties_even (x / ?u)) * ?u \<le> of_int (round_ties_even (y / ?u)) * ?u"
      using u0 by (simp only: mult_le_cancel_right_pos)
    then show ?thesis using x y 1 by (simp add: fl_def Let_def)
  next
    case 2
    have "fl x \<le> power_int 2 (binade x + 1)" using x by (rule fl_positive(2))
    also have "\<dots> \<le> power_int 2 (binade y)" using 2 by (intro power_int_increasing) simp_all
    also have "\<dots> \<le> fl y" using y by (rule fl_positive(1))
    finally show ?thesis .
  next
    case 3
    have "power_int (2::rat) (binade y + 1) \<le> power_int 2 (binade x)"
      using 3 by (intro power_int_increasing) simp_all
    also have "\<dots> \<le> x" using x by (rule binade_le)
    also have "x \<le> y" by (rule xy)
    also have "y < power_int 2 (binade y + 1)" using y by (rule binade_gt)
    finally show ?thesis by simp
  qed
qed

lemma fl_of_int:
  assumes "0 \<le> n" and "n < 2 ^ 53"
  shows "fl (of_int n) = of_int n"
proof (cases "n = 0")
  case True
  then show ?thesis by (simp add: fl_zero)
next
  case False
  with assms have x: "(0::rat) < of_int n" by simp
  let ?e = "binade (of_int n)"
  let ?k = "nat (52 - ?e)"
  have "power_int 2 ?e \<le> (of_int n :: rat)" using x by (rule binade_le)
  also have "(of_int n :: rat) < of_int (2 ^ 53)" using assms(2) by (simp only: of_int_less_iff)
  finally have "power_int (2::rat) ?e < power_int 2 53" by simp
  then have e: "?e < 53" by (rule power_int_le_imp_less_exp [rotated]) simp_all
  have k: "power_int (2::rat) (52 - ?e) = 2 ^ ?k" using e by (simp add: power_int_def)
  have "power_int 2 (?e - 52) * power_int 2 (52 - ?e) = power_int (2::rat) ((?e - 52) + (52 - ?e))"
    by (simp only: power_int_add [of "2::rat", simplified])
  then have uk: "power_int 2 (?e - 52) * 2 ^ ?k = (1::rat)" by (simp add: k)
  have "of_int n / power_int 2 (?e - 52) =
      of_int n * (power_int 2 (?e - 52) * 2 ^ ?k) / power_int (2::rat) (?e - 52)"
    by (simp only: uk mult_1_right)
  also have "\<dots> = of_int (n * 2 ^ ?k)" by simp
  finally show ?thesis using x by (rule fl_exact [rotated])
qed


section \<open>The grading loop and the store: basic facts\<close>

lemma executeCode_memoryUsed:
  "executeCode cx code language input timeLimit = Inr r \<Longrightarrow> o_memoryUsed r = 0"
  by (auto simp: executeCode_def onData_def Let_def
           split: if_splits compilex_reply.splits lookup.splits)

lemma gradeTestCase_results:
  "g_testCaseResults (gradeTestCase cx code language timeLimit tc g) =
     g_testCaseResults g @ [resultOf cx code language timeLimit tc]"
  by (simp add: gradeTestCase_def resultOf_def tryBody_def catchBody_def Let_def
           split: sum.splits)

lemma gradeTestCase_totalMarks:
  "g_totalMarks (gradeTestCase cx code language timeLimit tc g) =
     js_add (g_totalMarks g) (tc_marks tc)"
  by (simp add: gradeTestCase_def tryBody_def catchBody_def Let_def split: sum.splits)

lemma gradeTestCase_obtainedMarks:
  "g_obtainedMarks (gradeTestCase cx code language timeLimit tc g) =
     (if r_status (resultOf cx code language timeLimit tc) = passed
      then js_add (g_obtainedMarks g) (tc_marks tc) else g_obtainedMarks g)"
  by (simp add: gradeTestCase_def resultOf_def tryBody_def catchBody_def Let_def
           split: sum.splits)

lemma gradeTestCase_executionTime:
  "g_totalExecutionTime (gradeTestCase cx code language timeLimit tc g) =
     g_totalExecutionTime g + r_executionTime (resultOf cx code language timeLimit tc)"
  by (simp add: gradeTestCase_def resultOf_def tryBody_def catchBody_def Let_def
           split: sum.splits)

lemma resultOf_maxMarks: "r_maxMarks (resultOf cx code language timeLimit tc) = tc_marks tc"
  by (simp add: gradeTestCase_def resultOf_def tryBody_def catchBody_def Let_def
           split: sum.splits)

lemma resultOf_memoryUsed: "r_memoryUsed (resultOf cx code language timeLimit tc) = 0"
  by (auto simp: gradeTestCase_def resultOf_def tryBody_def catchBody_def Let_def or_zero_def
           dest: executeCode_memoryUsed split: sum.splits)

lemma gradeTestCase_memoryUsed:
  "g_totalMemoryUsed g = 0 \<Longrightarrow>
   g_totalMemoryUsed (gradeTestCase cx code language timeLimit tc g) = 0"
  by (auto simp: gradeTestCase_def tryBody_def catchBody_def Let_def or_zero_def
           dest: executeCode_memoryUsed split: sum.splits)

lemma resultOf_marksAwarded:
  "r_marksAwarded (resultOf cx code language timeLimit tc) =
     (if r_status (resultOf cx code language timeLimit tc) = passed then tc_marks tc else 0)"
  by (simp add: gradeTestCase_def resultOf_def tryBody_def catchBody_def Let_def
           split: sum.splits)

lemma gradeLoop_results:
  "g_testCaseResults (gradeLoop runs code language timeLimit i tcs g) =
     g_testCaseResults g @
       map (\<lambda>(j, tc). resultOf (runs j) code language timeLimit tc) (enumerate i tcs)"
  by (induction tcs arbitrary: i g) (simp_all add: gradeTestCase_results)

lemma gradeLoop_totalMarks:
  "g_totalMarks (gradeLoop runs code language timeLimit i tcs g) =
     foldl js_add (g_totalMarks g) (map tc_marks tcs)"
  by (induction tcs arbitrary: i g) (simp_all add: gradeTestCase_totalMarks)

lemma gradeLoop_obtainedMarks:
  "g_obtainedMarks (gradeLoop runs code language timeLimit i tcs g) =
     foldl (\<lambda>obtained (j, tc).
              if r_status (resultOf (runs j) code language timeLimit tc) = passed
              then js_add obtained (tc_marks tc) else obtained)
           (g_obtainedMarks g) (enumerate i tcs)"
  by (induction tcs arbitrary: i g) (simp_all add: gradeTestCase_obtainedMarks)

lemma gradeLoop_memoryUsed:
  "g_totalMemoryUsed g = 0 \<Longrightarrow>
   g_totalMemoryUsed (gradeLoop runs code language timeLimit i tcs g) = 0"
  by (induction tcs arbitrary: i g) (simp_all add: gradeTestCase_memoryUsed)

lemma grade_results:
  "g_testCaseResults (grade runs question code language) =
     map (\<lambda>(j, tc). resultOf (runs j) code language (q_timeLimit question) tc)
         (enumerate 0 (q_testCases question))"
  by (simp add: grade_def gradeLoop_results)

lemma grade_memoryUsed: "g_totalMemoryUsed (grade runs question code language) = 0"
  by (simp add: grade_def gradeLoop_memoryUsed)

lemma grade_results_memoryUsed:
  "r \<in> set (g_testCaseResults (grade runs question code language)) \<Longrightarrow> r_memoryUsed r = 0"
  by (auto simp: grade_results resultOf_memoryUsed)

lemma findById_Some_id: "findById db i = Some s \<Longrightarrow> s_id s = i"
  by (auto simp: findById_def find_Some_iff)

lemma findById_store_same: "findById (store db doc) (s_id doc) = Some doc"
proof -
  have a: "s_id doc \<in> set (map s_id xs) \<Longrightarrow>
        find (\<lambda>s. s_id s = s_id doc) (map (\<lambda>s. if s_id s = s_id doc then doc else s) xs) = Some doc" for xs
    by (induction xs) auto
  have b: "s_id doc \<notin> set (map s_id xs) \<Longrightarrow> find (\<lambda>s. s_id s = s_id doc) (xs @ [doc]) = Some doc" for xs
    by (induction xs) auto
  show ?thesis using a b by (simp add: findById_def store_def)
qed

lemma findById_store_other: "i \<noteq> s_id doc \<Longrightarrow> findById (store db doc) i = findById db i"
proof -
  assume n: "i \<noteq> s_id doc"
  have a: "find (\<lambda>s. s_id s = i) (map (\<lambda>s. if s_id s = s_id doc then doc else s) xs) = find (\<lambda>s. s_id s = i) xs" for xs
    using n by (induction xs) auto
  have b: "find (\<lambda>s. s_id s = i) (xs @ [doc]) = find (\<lambda>s. s_id s = i) xs" for xs
    using n by (induction xs) auto
  show ?thesis using a b by (simp add: findById_def store_def)
qed

lemma pre_save_fields:
  "s_id (pre_save d) = s_id d"
  "s_status (pre_save d) = s_status d"
  "s_testCaseResults (pre_save d) = s_testCaseResults d"
  "s_memoryUsed (pre_save d) = s_memoryUsed d"
  "s_marksAwarded (pre_save d) = s_marksAwarded d"
  "s_scorePercentage (pre_save d) = s_scorePercentage d"
  "s_executionTime (pre_save d) = s_executionTime d"
  "s_compilationError (pre_save d) = s_compilationError d"
  "s_contestId (pre_save d) = s_contestId d"
  "s_questionId (pre_save d) = s_questionId d"
  "s_userId (pre_save d) = s_userId d"
  "s_totalMarks (pre_save d) =
     foldl (\<lambda>total result. js_add total (r_marksAwarded result)) 0 (s_testCaseResults d)"
  by (simp_all add: pre_save_def)

lemma processSubmission_try_Inr:
  assumes "processSubmission_try faults runs db i question code language = Inr db'"
    and "findById db i = Some s0"
  shows "\<exists>s. findById db' i = Some s \<and> s_status s = completed \<and>
           s_testCaseResults s = g_testCaseResults (grade runs question code language) \<and>
           s_memoryUsed s = g_totalMemoryUsed (grade runs question code language) \<and>
           s_executionTime s = g_totalExecutionTime (grade runs question code language) \<and>
           s_marksAwarded s = g_obtainedMarks (grade runs question code language) \<and>
           s_scorePercentage s =
             scorePercentage (g_obtainedMarks (grade runs question code language))
                             (g_totalMarks (grade runs question code language)) \<and>
           s_totalMarks s =
             foldl (\<lambda>total result. js_add total (r_marksAwarded result)) 0
                   (g_testCaseResults (grade runs question code language))"
proof -
  have i: "s_id s0 = i" using assms(2) by (rule findById_Some_id)
  let ?g = "grade runs question code language"
  let ?s1 = "pre_save (s0\<lparr>s_status := running\<rparr>)"
  let ?s2 = "pre_save (?s1\<lparr>s_testCaseResults := g_testCaseResults ?g,
                s_executionTime := g_totalExecutionTime ?g,
                s_memoryUsed := g_totalMemoryUsed ?g,
                s_status := completed,
                s_marksAwarded := g_obtainedMarks ?g,
                s_totalMarks := g_totalMarks ?g,
                s_scorePercentage := scorePercentage (g_obtainedMarks ?g) (g_totalMarks ?g)\<rparr>)"
  have db': "db' = store (store db ?s1) ?s2"
    using assms by (simp add: processSubmission_try_def Let_def split: option.splits)
  have "s_id ?s2 = i" using i by (simp add: pre_save_fields)
  then have "findById db' i = Some ?s2"
    using findById_store_same [of "store db ?s1" ?s2] db' by simp
  then show ?thesis by (simp add: pre_save_fields)
qed

lemma processSubmission_try_Inl:
  assumes "processSubmission_try faults runs db i question code language = Inl (m, dbc)"
    and "findById db i = Some s0"
  shows "\<exists>s1. findById dbc i = Some s1 \<and> s_testCaseResults s1 = s_testCaseResults s0 \<and>
           s_compilationError s1 = s_compilationError s0 \<and>
           (s_status s1 = s_status s0 \<or> s_status s1 = running) \<and>
           (f_find faults = Some m \<or> f_saveRunning faults = Some m \<or> f_saveCompleted faults = Some m)"
proof -
  have i: "s_id s0 = i" using assms(2) by (rule findById_Some_id)
  let ?s1 = "pre_save (s0\<lparr>s_status := running\<rparr>)"
  have "s_id ?s1 = i" using i by (simp add: pre_save_fields)
  then have f: "findById (store db ?s1) i = Some ?s1"
    using findById_store_same [of db ?s1] by simp
  show ?thesis
    using assms f
    by (auto simp: processSubmission_try_def Let_def pre_save_fields split: option.splits)
qed

section \<open>Memory is never measured\<close>

text \<open>
  C9. Whatever the language, the reply of the collaborator and the elapsed time, an
  outcome returned by \<open>executeCode\<close> has \<open>memoryUsed = 0\<close>; so has every result record
  of the grading loop; and a pending submission that \<open>processSubmission\<close> has brought to
  \<open>completed\<close> is stored with \<open>memoryUsed = 0\<close> on itself and on each of its results.
\<close>

theorem memoryUsed_is_zero:
  "(executeCode cx code language input timeLimit = Inr r \<longrightarrow> o_memoryUsed r = 0) \<and>
   (\<forall>t\<in>set (g_testCaseResults (grade runs question code language)). r_memoryUsed t = 0) \<and>
   (findById db i = Some s0 \<and> s_status s0 = pending \<and>
    findById (snd (processSubmission faults runs db i question code language)) i = Some s \<and>
    s_status s = completed
    \<longrightarrow> s_memoryUsed s = 0 \<and> (\<forall>t\<in>set (s_testCaseResults s). r_memoryUsed t = 0))"
proof (intro conjI impI)
  assume "executeCode cx code language input timeLimit = Inr r"
  then show "o_memoryUsed r = 0" by (rule executeCode_memoryUsed)
next
  show "\<forall>t\<in>set (g_testCaseResults (grade runs question code language)). r_memoryUsed t = 0"
    by (simp add: grade_results_memoryUsed)
next
  assume h: "findById db i = Some s0 \<and> s_status s0 = pending \<and>
    findById (snd (processSubmission faults runs db i question code language)) i = Some s \<and>
    s_status s = completed"
  have "s_memoryUsed s = 0 \<and> (\<forall>t\<in>set (s_testCaseResults s). r_memoryUsed t = 0)"
  proof (cases "processSubmission_try faults runs db i question code language")
    case (Inr db')
    then have "snd (processSubmission faults runs db i question code language) = db'"
      by (simp add: processSubmission_def)
    with h processSubmission_try_Inr [OF Inr, of s0] show ?thesis
      by (auto simp: grade_memoryUsed grade_results_memoryUsed)
  next
    case (Inl p)
    obtain m dbc where p: "p = (m, dbc)" by (cases p)
    from Inl p processSubmission_try_Inl [of faults runs db i question code language m dbc s0] h
    obtain s1 where s1: "findById dbc i = Some s1" "s_status s1 = pending \<or> s_status s1 = running"
      by auto
    have "s_id s1 = i" using s1(1) by (rule findById_Some_id)
    then have "findById (store dbc (pre_save (s1\<lparr>s_status := error, s_compilationError := m\<rparr>))) i
        = Some (pre_save (s1\<lparr>s_status := error, s_compilationError := m\<rparr>))"
      using findById_store_same [of dbc "pre_save (s1\<lparr>s_status := error, s_compilationError := m\<rparr>)"]
      by (simp add: pre_save_fields)
    with Inl p s1 h have False
      by (auto simp: processSubmission_def pre_save_fields split: option.splits)
    then show ?thesis ..
  qed
  then show "s_memoryUsed s = 0" and "\<forall>t\<in>set (s_testCaseResults s). r_memoryUsed t = 0"
    by simp_all
qed

theorem memoryUsed_is_zero_witness:
  "executeCode ex_in_time (ascii ''print(5)'') ''python'' (Some (ascii ''2 3'')) 2000 =
     Inr (projr (executeCode ex_in_time (ascii ''print(5)'') ''python'' (Some (ascii ''2 3'')) 2000)) \<and>
   o_memoryUsed
     (projr (executeCode ex_in_time (ascii ''print(5)'') ''python'' (Some (ascii ''2 3'')) 2000)) = 0 \<and>
   findById [ex_submission] 1 = Some ex_submission \<and> s_status ex_submission = pending \<and>
   s_status (the (findById (snd (processSubmission no_faults (each_run ex_in_time) [ex_submission] 1
                                   ex_question (ascii ''print(5)'') ''python'')) 1)) = completed \<and>
   s_memoryUsed (the (findById (snd (processSubmission no_faults (each_run ex_in_time) [ex_submission] 1
                                   ex_question (ascii ''print(5)'') ''python'')) 1)) = 0"
proof -
  let ?e = "executeCode ex_in_time (ascii ''print(5)'') ''python'' (Some (ascii ''2 3'')) 2000"
  let ?d = "findById (snd (processSubmission no_faults (each_run ex_in_time) [ex_submission] 1
                                   ex_question (ascii ''print(5)'') ''python'')) 1"
  have a: "?e = Inr (projr ?e)" by code_simp
  have b: "findById [ex_submission] 1 = Some ex_submission" by code_simp
  have c: "s_status ex_submission = pending" by code_simp
  have d: "?d = Some (the ?d)" by code_simp
  have e: "s_status (the ?d) = completed" by code_simp
  from memoryUsed_is_zero [of ex_in_time "ascii ''print(5)''" "''python''" "Some (ascii ''2 3'')"
      2000 "projr ?e" "each_run ex_in_time" ex_question "[ex_submission]" 1 ex_submission no_faults
      "the ?d"] a b c d e
  show ?thesis by blast
qed

section \<open>Trimming\<close>

lemma rev_dropWhile_takeWhile:
  "rev (dropWhile P (rev xs)) @ rev (takeWhile P (rev xs)) = xs"
  by (metis rev_append rev_rev_ident takeWhile_dropWhile_id)

lemma trim_decomposition:
  "\<exists>a b. s = a @ trim s @ b \<and> (\<forall>c\<in>set a. isWhiteSpace c) \<and> (\<forall>c\<in>set b. isWhiteSpace c)"
proof -
  let ?t = "dropWhile isWhiteSpace s"
  let ?b = "rev (takeWhile isWhiteSpace (rev ?t))"
  have t: "?t = trim s @ ?b"
    using rev_dropWhile_takeWhile [of isWhiteSpace ?t]
    by (simp add: trim_def trimEnd_def trimStart_def)
  have "s = takeWhile isWhiteSpace s @ ?t" by simp
  with t have "s = takeWhile isWhiteSpace s @ trim s @ ?b" by simp
  moreover have "\<forall>c\<in>set (takeWhile isWhiteSpace s). isWhiteSpace c"
    by (auto dest: set_takeWhileD)
  moreover have "\<forall>c\<in>set ?b. isWhiteSpace c"
    by (auto dest: set_takeWhileD)
  ultimately show ?thesis by blast
qed

lemma trim_last: "trim s \<noteq> [] \<Longrightarrow> \<not> isWhiteSpace (last (trim s))"
proof -
  assume n: "trim s \<noteq> []"
  let ?t = "dropWhile isWhiteSpace s"
  have "dropWhile isWhiteSpace (rev ?t) \<noteq> []" using n by (simp add: trim_def trimEnd_def trimStart_def)
  then have "\<not> isWhiteSpace (hd (dropWhile isWhiteSpace (rev ?t)))" by (rule hd_dropWhile)
  moreover have "last (trim s) = hd (dropWhile isWhiteSpace (rev ?t))"
    using n by (simp add: trim_def trimEnd_def trimStart_def last_rev)
  ultimately show ?thesis by simp
qed

lemma trim_hd: "trim s \<noteq> [] \<Longrightarrow> \<not> isWhiteSpace (hd (trim s))"
proof -
  assume n: "trim s \<noteq> []"
  let ?t = "dropWhile isWhiteSpace s"
  let ?b = "rev (takeWhile isWhiteSpace (rev ?t))"
  have t: "?t = trim s @ ?b"
    using rev_dropWhile_takeWhile [of isWhiteSpace ?t]
    by (simp add: trim_def trimEnd_def trimStart_def)
  have "?t \<noteq> []"
  proof
    assume "?t = []"
    with t show False using n by (simp only: Nil_is_append_conv) simp
  qed
  then have "\<not> isWhiteSpace (hd ?t)" by (rule hd_dropWhile)
  moreover have "hd ?t = hd (trim s)" using t n by (metis hd_append2)
  ultimately show ?thesis by simp
qed

lemma trim_examples:
  "trim (ascii ''5'' @ [0x000A]) = trim (ascii ''5'')"
  "trim (ascii ''5 '') = trim (ascii ''5'' @ [0x0009])"
  "trim (ascii ''5  5'') \<noteq> trim (ascii ''5 5'')"
  "trim (ascii '' 5'') = ascii ''5''"
  "trim ([0x000A, 0x0009] @ ascii ''5 5  '' @ [0x000D, 0x000A]) = ascii ''5 5''"
  by code_simp+

section \<open>Verdicts\<close>

text \<open>
  C3. When the dispatcher resolves with \<open>result\<close> for a test case, the result record of
  the test case is \<open>passed\<close> exactly when the status is success and the trimmed output
  equals the trimmed expected output, \<open>time_limit_exceeded\<close> exactly when the status is
  timeout, \<open>runtime_error\<close> exactly when the status is error, and \<open>failed\<close> exactly in
  the remaining case, success with outputs that differ after trimming. Its
  \<open>marksAwarded\<close> is the marks of the test case when the verdict is \<open>passed\<close> and 0
  otherwise. Trimming a string, the output or the expected output, strips the white
  space at its two ends and nothing else: the string is white space, then the trimmed
  string, then white space, and the trimmed string, unless it is empty, neither begins
  nor ends with white space.
\<close>

theorem verdict_classification:
  "executeCode cx code language (Some (tc_input tc)) timeLimit = Inr result \<Longrightarrow>
   g_testCaseResults (gradeTestCase cx code language timeLimit tc g) =
     g_testCaseResults g @ [resultOf cx code language timeLimit tc] \<and>
   (r_status (resultOf cx code language timeLimit tc) = passed \<longleftrightarrow>
      o_status result = Success \<and> trim (o_output result) = trim (tc_expectedOutput tc)) \<and>
   (r_status (resultOf cx code language timeLimit tc) = time_limit_exceeded \<longleftrightarrow>
      o_status result = Timeout) \<and>
   (r_status (resultOf cx code language timeLimit tc) = runtime_error \<longleftrightarrow>
      o_status result = Error) \<and>
   (r_status (resultOf cx code language timeLimit tc) = failed \<longleftrightarrow>
      o_status result = Success \<and> trim (o_output result) \<noteq> trim (tc_expectedOutput tc)) \<and>
   r_marksAwarded (resultOf cx code language timeLimit tc) =
     (if r_status (resultOf cx code language timeLimit tc) = passed then tc_marks tc else 0) \<and>
   (\<exists>a b. o_output result = a @ trim (o_output result) @ b \<and>
          (\<forall>c\<in>set a. isWhiteSpace c) \<and> (\<forall>c\<in>set b. isWhiteSpace c)) \<and>
   (\<exists>a b. s = a @ trim s @ b \<and> (\<forall>c\<in>set a. isWhiteSpace c) \<and> (\<forall>c\<in>set b. isWhiteSpace c)) \<and>
   (trim s = [] \<or> (\<not> isWhiteSpace (hd (trim s)) \<and> \<not> isWhiteSpace (last (trim s))))"
proof -
  assume e: "executeCode cx code language (Some (tc_input tc)) timeLimit = Inr result"
  have s: "r_status (resultOf cx code language timeLimit tc) =
      (if o_status result = Success \<and> trim (o_output result) = trim (tc_expectedOutput tc)
       then passed
       else if o_status result = Timeout then time_limit_exceeded
       else if o_status result = Error then runtime_error else failed)"
    using e by (simp add: resultOf_def gradeTestCase_def tryBody_def Let_def)
  have "r_status (resultOf cx code language timeLimit tc) = passed \<longleftrightarrow>
      o_status result = Success \<and> trim (o_output result) = trim (tc_expectedOutput tc)"
    using s by (cases "o_status result") auto
  moreover have "r_status (resultOf cx code language timeLimit tc) = time_limit_exceeded \<longleftrightarrow>
      o_status result = Timeout"
    using s by (cases "o_status result") auto
  moreover have "r_status (resultOf cx code language timeLimit tc) = runtime_error \<longleftrightarrow>
      o_status result = Error"
    using s by (cases "o_status result") auto
  moreover have "r_status (resultOf cx code language timeLimit tc) = failed \<longleftrightarrow>
      o_status result = Success \<and> trim (o_output result) \<noteq> trim (tc_expectedOutput tc)"
    using s by (cases "o_status result") auto
  moreover have "trim s = [] \<or> (\<not> isWhiteSpace (hd (trim s)) \<and> \<not> isWhiteSpace (last (trim s)))"
    using trim_hd [of s] trim_last [of s] by blast
  ultimately show ?thesis
    using trim_decomposition [of "o_output result"] trim_decomposition [of s]
    by (simp only: gradeTestCase_results resultOf_marksAwarded simp_thms)
qed

theorem verdict_classification_witness:
  "executeCode ex_padded (ascii ''print(5)'') ''python''
     (Some (tc_input (hd (q_testCases ex_question)))) 2000 =
     Inr \<lparr>o_status = Success, o_error = [], o_executionTime = 12, o_memoryUsed = 0,
          o_output = ascii '' 5 '' @ [0x000A, 0x000A]\<rparr> \<and>
   trim (ascii '' 5 '' @ [0x000A, 0x000A]) = ascii ''5'' \<and>
   \<not> isWhiteSpace (hd (trim (ascii '' 5 '' @ [0x000A, 0x000A]))) \<and>
   r_status (resultOf ex_padded (ascii ''print(5)'') ''python'' 2000
               (hd (q_testCases ex_question))) = passed \<and>
   r_marksAwarded (resultOf ex_padded (ascii ''print(5)'') ''python'' 2000
               (hd (q_testCases ex_question))) = 5"
proof -
  have a: "executeCode ex_padded (ascii ''print(5)'') ''python''
     (Some (tc_input (hd (q_testCases ex_question)))) 2000 =
     Inr \<lparr>o_status = Success, o_error = [], o_executionTime = 12, o_memoryUsed = 0,
          o_output = ascii '' 5 '' @ [0x000A, 0x000A]\<rparr>"
    by code_simp
  have b: "trim (ascii '' 5 '' @ [0x000A, 0x000A]) = ascii ''5''"
    "trim (tc_expectedOutput (hd (q_testCases ex_question))) = ascii ''5''"
    "ascii ''5'' \<noteq> []"
    by code_simp+
  have c: "tc_marks (hd (q_testCases ex_question)) = 5" by code_simp
  from verdict_classification [OF a, where s = "ascii '' 5 '' @ [0x000A, 0x000A]"] b c a
  show ?thesis by simp
qed

section \<open>The time limit\<close>

text \<open>
  C2, as the claim states it, fails: when the collaborator reports an error, the outcome
  is \<open>error\<close> however long the call took. Here the call took 5000 ms against a limit of
  2000 ms and reported a segmentation fault; the outcome has status \<open>error\<close> with the
  collaborator's message, and the test case is graded \<open>runtime_error\<close>.
\<close>

theorem timeout_not_forced_counterexample:
  "ex_late_failure (CompileMethod ''compileC'' (ascii ''int main(){}'') (Some (ascii ''2 3''))) =
     Returned \<lparr>d_error = Some (ascii ''Segmentation fault''), d_output = None\<rparr> 5000 \<and>
   (5000 :: int) > 2000 \<and>
   executeCode ex_late_failure (ascii ''int main(){}'') ''c'' (Some (ascii ''2 3'')) 2000 =
     Inr \<lparr>o_status = Error, o_error = ascii ''Segmentation fault'', o_executionTime = 5000,
          o_memoryUsed = 0, o_output = []\<rparr> \<and>
   r_status (resultOf ex_late_failure (ascii ''int main(){}'') ''c'' 2000
               (hd (q_testCases ex_question))) = runtime_error"
  by code_simp

text \<open>
  C2, amended. When the collaborator answers after more than \<open>timeLimit\<close> milliseconds
  and reports no error, \<open>executeCode\<close> returns status \<open>timeout\<close> with the error text
  "Time limit exceeded", and the test case is graded \<open>time_limit_exceeded\<close> with no
  marks, whatever its output. When the collaborator reports an error, the outcome is
  \<open>error\<close> with the collaborator's message, whatever the elapsed time, and the test case
  is graded \<open>runtime_error\<close>.
\<close>

theorem timeout_unless_error:
  assumes "language = ''python'' \<or> (\<exists>m. compilexLang language = Own m)"
  shows "(timeLimit < t \<and> \<not> truthy (d_error d) \<longrightarrow>
            executeCode (replying d t) code language input timeLimit =
              Inr \<lparr>o_status = Timeout, o_error = ascii ''Time limit exceeded'',
                   o_executionTime = t, o_memoryUsed = 0, o_output = or_empty (d_output d)\<rparr> \<and>
            r_status (resultOf (replying d t) code language timeLimit tc) = time_limit_exceeded \<and>
            r_marksAwarded (resultOf (replying d t) code language timeLimit tc) = 0) \<and>
         (truthy (d_error d) \<longrightarrow>
            executeCode (replying d t) code language input timeLimit =
              Inr \<lparr>o_status = Error, o_error = the (d_error d), o_executionTime = t,
                   o_memoryUsed = 0, o_output = or_empty (d_output d)\<rparr> \<and>
            r_status (resultOf (replying d t) code language timeLimit tc) = runtime_error)"
proof -
  have e: "executeCode (replying d t) code language inp timeLimit = Inr (onData timeLimit d t)"
    for inp
    using assms by (auto simp: executeCode_def replying_def Let_def)
  show ?thesis
    by (simp add: e resultOf_def gradeTestCase_def tryBody_def Let_def onData_def)
qed

theorem timeout_unless_error_witness:
  "(2000 :: int) < 5000 \<and>
   \<not> truthy (d_error \<lparr>d_error = None, d_output = Some (ascii ''5'' @ [0x000A])\<rparr>) \<and>
   trim (ascii ''5'' @ [0x000A]) = trim (tc_expectedOutput (hd (q_testCases ex_question))) \<and>
   executeCode ex_late (ascii ''print(5)'') ''python'' (Some (ascii ''2 3'')) 2000 =
     Inr \<lparr>o_status = Timeout, o_error = ascii ''Time limit exceeded'', o_executionTime = 5000,
          o_memoryUsed = 0, o_output = ascii ''5'' @ [0x000A]\<rparr> \<and>
   r_status (resultOf ex_late (ascii ''print(5)'') ''python'' 2000
               (hd (q_testCases ex_question))) = time_limit_exceeded \<and>
   r_marksAwarded (resultOf ex_late (ascii ''print(5)'') ''python'' 2000
               (hd (q_testCases ex_question))) = 0"
proof -
  have a: "\<not> truthy (d_error \<lparr>d_error = None, d_output = Some (ascii ''5'' @ [0x000A])\<rparr>)"
    by code_simp
  have b: "trim (ascii ''5'' @ [0x000A]) = trim (tc_expectedOutput (hd (q_testCases ex_question)))"
    by code_simp
  have c: "or_empty (d_output \<lparr>d_error = None, d_output = Some (ascii ''5'' @ [0x000A])\<rparr>) =
      ascii ''5'' @ [0x000A]"
    by code_simp
  from timeout_unless_error [of "''python''" 2000 5000
      "\<lparr>d_error = None, d_output = Some (ascii ''5'' @ [0x000A])\<rparr>" "ascii ''print(5)''"
      "Some (ascii ''2 3'')" "hd (q_testCases ex_question)"] a b c
  show ?thesis by (simp add: ex_late_def)
qed

section \<open>The totals of a graded submission\<close>

text \<open>
  C1 at a failing input. The question has two test cases of five marks each and the
  program prints a wrong answer for both. \<open>processSubmission\<close> accumulates
  \<open>totalMarks = 10\<close> and assigns it to the submission, the results stored with the
  submission have \<open>maxMarks\<close> summing to 10, but the hook \<open>pre('save')\<close> overwrites
  \<open>totalMarks\<close> with the sum of \<open>marksAwarded\<close>: the stored submission has
  \<open>totalMarks = 0\<close>.
\<close>

theorem stored_totalMarks_is_sum_of_marksAwarded:
  "g_totalMarks (grade (each_run ex_wrong) ex_question (ascii ''print(4)'') ''python'') = 10 \<and>
   s_status (the (findById (snd (processSubmission no_faults (each_run ex_wrong) [ex_submission] 1
                                   ex_question (ascii ''print(4)'') ''python'')) 1)) = completed \<and>
   sum_list (map r_maxMarks (s_testCaseResults
     (the (findById (snd (processSubmission no_faults (each_run ex_wrong) [ex_submission] 1
                            ex_question (ascii ''print(4)'') ''python'')) 1)))) = 10 \<and>
   s_totalMarks (the (findById (snd (processSubmission no_faults (each_run ex_wrong) [ex_submission] 1
                                   ex_question (ascii ''print(4)'') ''python'')) 1)) = 0 \<and>
   s_marksAwarded (the (findById (snd (processSubmission no_faults (each_run ex_wrong) [ex_submission] 1
                                   ex_question (ascii ''print(4)'') ''python'')) 1)) = 0"
  by code_simp

section \<open>Faults\<close>

lemma resultOf_fault:
  "executeCode cx code language (Some (tc_input tc)) timeLimit = Inl message \<Longrightarrow>
   resultOf cx code language timeLimit tc =
     \<lparr>r_testCaseId = tc_id tc, r_status = runtime_error, r_executionTime = 0,
      r_memoryUsed = 0, r_output = [], r_error = message, r_marksAwarded = 0,
      r_maxMarks = tc_marks tc, r_isHidden = tc_isHidden tc\<rparr>"
  by (simp add: resultOf_def gradeTestCase_def catchBody_def)

lemma grade_results_nth:
  "j < length (q_testCases question) \<Longrightarrow>
   g_testCaseResults (grade runs question code language) ! j =
     resultOf (runs j) code language (q_timeLimit question) (q_testCases question ! j)"
  by (simp add: grade_results nth_enumerate_eq)

lemma grade_results_length:
  "length (g_testCaseResults (grade runs question code language)) =
     length (q_testCases question)"
  by (simp add: grade_results)

lemma grade_totalMarks:
  "g_totalMarks (grade runs question code language) =
     foldl js_add 0 (map tc_marks (q_testCases question))"
  by (simp add: grade_def gradeLoop_totalMarks)

lemma processSubmission_outer_fault:
  assumes f: "findById db i = Some s0"
    and c: "f_catchFind faults = None" "f_catchSave faults = None"
    and t: "processSubmission_try faults runs db i question code language = Inl (m, dbc)"
  shows "\<exists>s. processSubmission faults runs db i question code language = (None, store dbc s) \<and>
             findById (store dbc s) i = Some s \<and> s_status s = error \<and>
             s_compilationError s = m \<and> s_testCaseResults s = s_testCaseResults s0"
proof -
  from processSubmission_try_Inl [OF t f]
  obtain s1 where s1: "findById dbc i = Some s1" "s_testCaseResults s1 = s_testCaseResults s0"
    by blast
  let ?s = "pre_save (s1\<lparr>s_status := error, s_compilationError := m\<rparr>)"
  have "s_id s1 = i" using s1(1) by (rule findById_Some_id)
  then have "findById (store dbc ?s) i = Some ?s"
    using findById_store_same [of dbc ?s] by (simp add: pre_save_fields)
  moreover have "processSubmission faults runs db i question code language = (None, store dbc ?s)"
    using t c s1(1) by (simp add: processSubmission_def)
  ultimately show ?thesis using s1(2) by (intro exI [of _ ?s]) (simp add: pre_save_fields)
qed

lemma processSubmission_try_faulty:
  assumes "findById db i = Some s0"
    and "f_find faults = Some m \<or> (f_find faults = None \<and> f_saveRunning faults = Some m) \<or>
         (f_find faults = None \<and> f_saveRunning faults = None \<and> f_saveCompleted faults = Some m)"
  shows "\<exists>dbc. processSubmission_try faults runs db i question code language = Inl (m, dbc)"
  using assms by (auto simp: processSubmission_try_def Let_def)

lemma processSubmission_completed:
  assumes f: "findById db i = Some before"
    and n: "f_find faults = None" "f_saveRunning faults = None" "f_saveCompleted faults = None"
  shows "fst (processSubmission faults runs db i question code language) = None \<and>
         (\<exists>s. findById (snd (processSubmission faults runs db i question code language)) i = Some s \<and>
              s_status s = completed \<and>
              s_testCaseResults s = g_testCaseResults (grade runs question code language) \<and>
              s_scorePercentage s =
                scorePercentage (g_obtainedMarks (grade runs question code language))
                                (g_totalMarks (grade runs question code language)))"
proof -
  obtain db' where t: "processSubmission_try faults runs db i question code language = Inr db'"
    using f n by (simp add: processSubmission_try_def Let_def)
  then have p: "processSubmission faults runs db i question code language = (None, db')"
    by (simp add: processSubmission_def)
  from processSubmission_try_Inr [OF t f] show ?thesis by (auto simp: p)
qed

lemma processSubmission_catch_fault:
  assumes f: "findById db i = Some before"
    and t: "processSubmission_try faults runs db i question code language = Inl (m, dbc)"
    and c: "f_catchFind faults = Some m' \<or>
            (f_catchFind faults = None \<and> f_catchSave faults = Some m')"
  shows "fst (processSubmission faults runs db i question code language) = Some m' \<and>
         (\<exists>s. findById (snd (processSubmission faults runs db i question code language)) i = Some s \<and>
              (s_status s = s_status before \<or> s_status s = running) \<and>
              s_testCaseResults s = s_testCaseResults before \<and>
              s_compilationError s = s_compilationError before)"
proof -
  from processSubmission_try_Inl [OF t f]
  obtain s1 where s1: "findById dbc i = Some s1" "s_testCaseResults s1 = s_testCaseResults before"
    "s_compilationError s1 = s_compilationError before"
    "s_status s1 = s_status before \<or> s_status s1 = running"
    by blast
  have "processSubmission faults runs db i question code language = (Some m', dbc)"
    using t c s1(1) by (auto simp: processSubmission_def)
  then show ?thesis using s1 by auto
qed

text \<open>
  C8, as the claim states it, fails: the \<open>catch\<close> of \<open>processSubmission\<close> looks the
  submission up and saves it without a guard of its own. When the database stays out of
  reach, so that the first lookup throws and the lookup of the \<open>catch\<close> throws as
  well, the promise rejects and the stored submission is still \<open>pending\<close>, with no
  fault message retained; when the final save and the save of the \<open>catch\<close> throw, it is
  still \<open>running\<close>.
\<close>

theorem outer_fault_counterexample:
  "fst (processSubmission
          (no_faults\<lparr>f_find := Some (ascii ''connection lost''),
                     f_catchFind := Some (ascii ''connection lost'')\<rparr>)
          (each_run ex_in_time) [ex_submission] 1 ex_question (ascii ''print(5)'') ''python'')
     = Some (ascii ''connection lost'') \<and>
   map s_status (snd (processSubmission
          (no_faults\<lparr>f_find := Some (ascii ''connection lost''),
                     f_catchFind := Some (ascii ''connection lost'')\<rparr>)
          (each_run ex_in_time) [ex_submission] 1 ex_question (ascii ''print(5)'') ''python''))
     = [pending] \<and>
   concat (map s_compilationError (snd (processSubmission
          (no_faults\<lparr>f_find := Some (ascii ''connection lost''),
                     f_catchFind := Some (ascii ''connection lost'')\<rparr>)
          (each_run ex_in_time) [ex_submission] 1 ex_question (ascii ''print(5)'') ''python'')))
     = [] \<and>
   map s_status (snd (processSubmission
          (no_faults\<lparr>f_saveCompleted := Some (ascii ''connection lost''),
                     f_catchSave := Some (ascii ''connection lost'')\<rparr>)
          (each_run ex_in_time) [ex_submission] 1 ex_question (ascii ''print(5)'') ''python''))
     = [running]"
  by code_simp

text \<open>
  C8, amended. If \<open>executeCode\<close> rejects for the \<open>k\<close>-th test case, the loop gives that
  test case the result \<open>runtime_error\<close> with the fault's message, no marks awarded and
  the marks of the test case as \<open>maxMarks\<close>; it still produces one result for every
  test case, each determined by its own dispatcher call, and its \<open>totalMarks\<close> has
  the marks of every test case added, those of the faulty one too; when the three
  database operations of the outer \<open>try\<close> succeed, the submission is stored
  \<open>completed\<close> with these results and with the percentage over that \<open>totalMarks\<close>. If a database operation of the outer \<open>try\<close>
  throws with message \<open>m\<close> (the lookup, the save as \<open>running\<close> or the final save) and
  the lookup and the save of the \<open>catch\<close> succeed, a submission stored without results
  ends with status \<open>error\<close>, \<open>compilationError = m\<close> and still no results.
\<close>

theorem faults_are_contained:
  "(k < length (q_testCases question) \<and>
    executeCode (runs k) code language (Some (tc_input (q_testCases question ! k)))
      (q_timeLimit question) = Inl message \<longrightarrow>
      g_testCaseResults (grade runs question code language) ! k =
        \<lparr>r_testCaseId = tc_id (q_testCases question ! k), r_status = runtime_error,
         r_executionTime = 0, r_memoryUsed = 0, r_output = [], r_error = message,
         r_marksAwarded = 0, r_maxMarks = tc_marks (q_testCases question ! k),
         r_isHidden = tc_isHidden (q_testCases question ! k)\<rparr> \<and>
      length (g_testCaseResults (grade runs question code language)) =
        length (q_testCases question) \<and>
      (\<forall>j < length (q_testCases question).
         g_testCaseResults (grade runs question code language) ! j =
           resultOf (runs j) code language (q_timeLimit question) (q_testCases question ! j)) \<and>
      g_totalMarks (grade runs question code language) =
        foldl js_add 0 (map tc_marks (q_testCases question)) \<and>
      (findById db i = Some before \<and> f_find faults = None \<and> f_saveRunning faults = None \<and>
       f_saveCompleted faults = None \<longrightarrow>
         fst (processSubmission faults runs db i question code language) = None \<and>
         (\<exists>s. findById (snd (processSubmission faults runs db i question code language)) i =
                Some s \<and>
              s_status s = completed \<and>
              s_testCaseResults s = g_testCaseResults (grade runs question code language) \<and>
              s_scorePercentage s =
                scorePercentage (g_obtainedMarks (grade runs question code language))
                                (foldl js_add 0 (map tc_marks (q_testCases question)))))) \<and>
   (findById db i = Some before \<and> s_testCaseResults before = [] \<and>
    (f_find faults = Some m \<or> (f_find faults = None \<and> f_saveRunning faults = Some m) \<or>
     (f_find faults = None \<and> f_saveRunning faults = None \<and> f_saveCompleted faults = Some m))
    \<and> f_catchFind faults = None \<and> f_catchSave faults = None \<longrightarrow>
      fst (processSubmission faults runs db i question code language) = None \<and>
      (\<exists>s. findById (snd (processSubmission faults runs db i question code language)) i =
             Some s \<and>
           s_status s = error \<and> s_compilationError s = m \<and> s_testCaseResults s = []))"
proof (intro conjI impI)
  assume h: "k < length (q_testCases question) \<and>
    executeCode (runs k) code language (Some (tc_input (q_testCases question ! k)))
      (q_timeLimit question) = Inl message"
  then show "g_testCaseResults (grade runs question code language) ! k =
        \<lparr>r_testCaseId = tc_id (q_testCases question ! k), r_status = runtime_error,
         r_executionTime = 0, r_memoryUsed = 0, r_output = [], r_error = message,
         r_marksAwarded = 0, r_maxMarks = tc_marks (q_testCases question ! k),
         r_isHidden = tc_isHidden (q_testCases question ! k)\<rparr>"
    by (simp add: grade_results_nth resultOf_fault)
  show "length (g_testCaseResults (grade runs question code language)) =
        length (q_testCases question)"
    by (rule grade_results_length)
  show "\<forall>j < length (q_testCases question).
         g_testCaseResults (grade runs question code language) ! j =
           resultOf (runs j) code language (q_timeLimit question) (q_testCases question ! j)"
    by (simp add: grade_results_nth)
  show "g_totalMarks (grade runs question code language) =
        foldl js_add 0 (map tc_marks (q_testCases question))"
    by (rule grade_totalMarks)
  assume d: "findById db i = Some before \<and> f_find faults = None \<and>
    f_saveRunning faults = None \<and> f_saveCompleted faults = None"
  from d processSubmission_completed [of db i before faults runs question code language]
  show "fst (processSubmission faults runs db i question code language) = None"
    and "\<exists>s. findById (snd (processSubmission faults runs db i question code language)) i =
                Some s \<and>
              s_status s = completed \<and>
              s_testCaseResults s = g_testCaseResults (grade runs question code language) \<and>
              s_scorePercentage s =
                scorePercentage (g_obtainedMarks (grade runs question code language))
                                (foldl js_add 0 (map tc_marks (q_testCases question)))"
    by (simp_all add: grade_totalMarks)
next
  assume h: "findById db i = Some before \<and> s_testCaseResults before = [] \<and>
    (f_find faults = Some m \<or> (f_find faults = None \<and> f_saveRunning faults = Some m) \<or>
     (f_find faults = None \<and> f_saveRunning faults = None \<and> f_saveCompleted faults = Some m))
    \<and> f_catchFind faults = None \<and> f_catchSave faults = None"
  then obtain dbc where
    t: "processSubmission_try faults runs db i question code language = Inl (m, dbc)"
    using processSubmission_try_faulty [of db i before faults m runs question code language]
    by blast
  from h processSubmission_outer_fault [OF _ _ _ t, of before]
  show "fst (processSubmission faults runs db i question code language) = None"
    and "\<exists>s. findById (snd (processSubmission faults runs db i question code language)) i =
              Some s \<and>
            s_status s = error \<and> s_compilationError s = m \<and> s_testCaseResults s = []"
    by auto
qed

theorem faults_are_contained_witness:
  "executeCode (throwing (ascii ''spawn ENOENT'')) (ascii ''print(5)'') ''python''
     (Some (tc_input (q_testCases ex_question ! 0))) (q_timeLimit ex_question) =
     Inl (ascii ''spawn ENOENT'') \<and>
   findById [ex_submission] 1 = Some ex_submission \<and> s_testCaseResults ex_submission = [] \<and>
   map r_status (s_testCaseResults (the (findById (snd (processSubmission no_faults
       (\<lambda>i. if i = 0 then throwing (ascii ''spawn ENOENT'') else ex_in_time)
       [ex_submission] 1 ex_question (ascii ''print(5)'') ''python'')) 1)))
     = [runtime_error, passed] \<and>
   s_scorePercentage (the (findById (snd (processSubmission no_faults
       (\<lambda>i. if i = 0 then throwing (ascii ''spawn ENOENT'') else ex_in_time)
       [ex_submission] 1 ex_question (ascii ''print(5)'') ''python'')) 1)) = 50 \<and>
   s_status (the (findById (snd (processSubmission
       (no_faults\<lparr>f_saveCompleted := Some (ascii ''connection lost'')\<rparr>)
       (each_run ex_in_time) [ex_submission] 1 ex_question (ascii ''print(5)'') ''python'')) 1))
     = error \<and>
   s_compilationError (the (findById (snd (processSubmission
       (no_faults\<lparr>f_saveCompleted := Some (ascii ''connection lost'')\<rparr>)
       (each_run ex_in_time) [ex_submission] 1 ex_question (ascii ''print(5)'') ''python'')) 1))
     = ascii ''connection lost''"
proof -
  let ?runs = "\<lambda>i::nat. if i = 0 then throwing (ascii ''spawn ENOENT'') else ex_in_time"
  let ?faults = "no_faults\<lparr>f_saveCompleted := Some (ascii ''connection lost'')\<rparr>"
  have a: "(0::nat) < length (q_testCases ex_question)" by code_simp
  have b: "executeCode (?runs 0) (ascii ''print(5)'') ''python''
     (Some (tc_input (q_testCases ex_question ! 0))) (q_timeLimit ex_question) =
     Inl (ascii ''spawn ENOENT'')"
    by code_simp
  have c: "map r_status (g_testCaseResults (grade ?runs ex_question (ascii ''print(5)'')
      ''python'')) = [runtime_error, passed]"
    "scorePercentage (g_obtainedMarks (grade ?runs ex_question (ascii ''print(5)'') ''python''))
       (foldl js_add 0 (map tc_marks (q_testCases ex_question))) = 50"
    by code_simp+
  have e: "findById [ex_submission] 1 = Some ex_submission" "s_testCaseResults ex_submission = []"
    by code_simp+
  have n: "f_find no_faults = None" "f_saveRunning no_faults = None"
    "f_saveCompleted no_faults = None"
    by code_simp+
  have f: "f_catchFind ?faults = None" "f_catchSave ?faults = None" "f_find ?faults = None"
    "f_saveRunning ?faults = None" "f_saveCompleted ?faults = Some (ascii ''connection lost'')"
    by code_simp+
  note t = faults_are_contained [where k = 0 and question = ex_question and runs = ?runs
      and code = "ascii ''print(5)''" and language = "''python''"
      and message = "ascii ''spawn ENOENT''" and db = "[ex_submission]" and i = 1
      and before = ex_submission and faults = no_faults, THEN conjunct1]
  note u = faults_are_contained [where db = "[ex_submission]" and i = 1
      and before = ex_submission
      and faults = ?faults and m = "ascii ''connection lost''" and runs = "each_run ex_in_time"
      and question = ex_question and code = "ascii ''print(5)''" and language = "''python''",
      THEN conjunct2]
  from t a b e n have "\<exists>s. findById (snd (processSubmission no_faults ?runs [ex_submission] 1
        ex_question (ascii ''print(5)'') ''python'')) 1 = Some s \<and>
      s_testCaseResults s = g_testCaseResults (grade ?runs ex_question (ascii ''print(5)'')
        ''python'') \<and>
      s_scorePercentage s =
        scorePercentage (g_obtainedMarks (grade ?runs ex_question (ascii ''print(5)'') ''python''))
           (foldl js_add 0 (map tc_marks (q_testCases ex_question)))"
    by blast
  then have 1: "map r_status (s_testCaseResults (the (findById (snd (processSubmission no_faults
        ?runs [ex_submission] 1 ex_question (ascii ''print(5)'') ''python'')) 1)))
      = [runtime_error, passed]"
    "s_scorePercentage (the (findById (snd (processSubmission no_faults
        ?runs [ex_submission] 1 ex_question (ascii ''print(5)'') ''python'')) 1)) = 50"
    using c by auto
  from u e f have "\<exists>s. findById (snd (processSubmission ?faults (each_run ex_in_time)
       [ex_submission] 1 ex_question (ascii ''print(5)'') ''python'')) 1 = Some s \<and>
       s_status s = error \<and> s_compilationError s = ascii ''connection lost''"
    by blast
  then have 2: "s_status (the (findById (snd (processSubmission ?faults (each_run ex_in_time)
       [ex_submission] 1 ex_question (ascii ''print(5)'') ''python'')) 1)) = error"
    "s_compilationError (the (findById (snd (processSubmission ?faults (each_run ex_in_time)
       [ex_submission] 1 ex_question (ascii ''print(5)'') ''python'')) 1))
     = ascii ''connection lost''"
    by auto
  from 1 2 b e show ?thesis by simp
qed

section \<open>The input of a Python submission\<close>

lemma split_nl_not_Nil: "split_nl s \<noteq> []"
  by (induction s) (auto split: list.splits)

lemma split_nl_hd:
  "s \<noteq> [] \<Longrightarrow> hd s \<noteq> 0x000A \<Longrightarrow> hd (split_nl s) \<noteq> [] \<and> hd (hd (split_nl s)) = hd s"
  by (cases s) (auto split: list.splits)

lemma split_nl_last:
  "s \<noteq> [] \<Longrightarrow> last s \<noteq> 0x000A \<Longrightarrow>
   last (split_nl s) \<noteq> [] \<and> last (last (split_nl s)) = last s"
proof (induction s)
  case Nil
  then show ?case by simp
next
  case (Cons c cs)
  show ?case
  proof (cases cs)
    case Nil
    with Cons.prems show ?thesis by simp
  next
    case (Cons d ds)
    with Cons.prems Cons.IH have ih: "last (split_nl cs) \<noteq> [] \<and> last (last (split_nl cs)) = last cs"
      by simp
    obtain l ls where sp: "split_nl cs = l # ls"
      using split_nl_not_Nil [of cs] by (cases "split_nl cs") auto
    show ?thesis
      using ih sp Cons by (cases ls) (auto split: if_splits)
  qed
qed

lemma split_nl_lines: "l \<in> set (split_nl s) \<Longrightarrow> 0x000A \<notin> set l"
  by (induction s arbitrary: l) (auto split: list.splits if_splits)

lemma split_nl_join: "concat (map (\<lambda>l. l @ [0x000A]) (split_nl s)) = s @ [0x000A]"
  by (induction s) (auto split: list.splits)

lemma isWhiteSpace_line_feed: "isWhiteSpace 0x000A"
  by (simp add: isWhiteSpace_def)

lemma py_inputs_eq:
  "py_inputs input_lines i n =
     take n (drop i input_lines) @ replicate (n - (length input_lines - i)) []"
proof (induction n arbitrary: i)
  case 0
  then show ?case by simp
next
  case (Suc n)
  show ?case
  proof (cases "i < length input_lines")
    case True
    then have "drop i input_lines = input_lines ! i # drop (Suc i) input_lines"
      by (simp add: Cons_nth_drop_Suc)
    moreover have "Suc n - (length input_lines - i) = n - (length input_lines - Suc i)"
      using True by simp
    ultimately show ?thesis using True by (simp add: py_input_def Suc.IH)
  next
    case False
    then show ?thesis by (simp add: py_input_def Suc.IH replicate_app_Cons_same)
  qed
qed

lemma preamble_lines_ends:
  "preamble_lines input = [[]] \<or>
   (hd (preamble_lines input) \<noteq> [] \<and> \<not> isWhiteSpace (hd (hd (preamble_lines input))) \<and>
    last (preamble_lines input) \<noteq> [] \<and> \<not> isWhiteSpace (last (last (preamble_lines input))))"
proof (cases "trim (or_empty input) = []")
  case True
  then show ?thesis by (simp add: preamble_lines_def)
next
  case False
  let ?s = "trim (or_empty input)"
  have h: "\<not> isWhiteSpace (hd ?s)" using False by (rule trim_hd)
  have l: "\<not> isWhiteSpace (last ?s)" using False by (rule trim_last)
  have "hd ?s \<noteq> 0x000A" using h isWhiteSpace_line_feed by metis
  then have 1: "hd (split_nl ?s) \<noteq> [] \<and> hd (hd (split_nl ?s)) = hd ?s"
    using False by (simp add: split_nl_hd)
  have "last ?s \<noteq> 0x000A" using l isWhiteSpace_line_feed by metis
  then have 2: "last (split_nl ?s) \<noteq> [] \<and> last (last (split_nl ?s)) = last ?s"
    using False by (simp add: split_nl_last)
  show ?thesis using 1 2 h l by (simp add: preamble_lines_def)
qed

text \<open>
  C10. For a Python submission \<open>executeCode\<close> hands to the collaborator the lines of the
  trimmed input: joined by line feeds they give back the trimmed input, and unless the
  trimmed input is empty (one empty line) the first line is not empty and does not
  begin with white space, and the last line is not empty and does not end with white
  space. The \<open>input()\<close> of the preamble returns these lines in order and then the empty
  string: \<open>n\<close> calls return the first \<open>n\<close> lines followed by empty strings, and a call
  at an index past the last line returns the empty string and leaves the index.
\<close>

theorem python_input_is_trimmed:
  "executeCode cx code ''python'' input timeLimit =
     (case cx (CompilePython (preamble_lines input) code) of
        Threw m \<Rightarrow> Inl m
      | Returned d t \<Rightarrow> Inr (onData timeLimit d t)) \<and>
   concat (map (\<lambda>l. l @ [0x000A]) (preamble_lines input)) = trim (or_empty input) @ [0x000A] \<and>
   (preamble_lines input = [[]] \<or>
    (hd (preamble_lines input) \<noteq> [] \<and> \<not> isWhiteSpace (hd (hd (preamble_lines input))) \<and>
     last (preamble_lines input) \<noteq> [] \<and> \<not> isWhiteSpace (last (last (preamble_lines input))))) \<and>
   py_inputs (preamble_lines input) 0 n =
     take n (preamble_lines input) @ replicate (n - length (preamble_lines input)) [] \<and>
   (length (preamble_lines input) \<le> k \<longrightarrow> py_input (preamble_lines input) k = ([], k))"
proof (intro conjI)
  show "executeCode cx code ''python'' input timeLimit =
     (case cx (CompilePython (preamble_lines input) code) of
        Threw m \<Rightarrow> Inl m
      | Returned d t \<Rightarrow> Inr (onData timeLimit d t))"
    by (simp add: executeCode_def preamble_lines_def)
  show "concat (map (\<lambda>l. l @ [0x000A]) (preamble_lines input)) = trim (or_empty input) @ [0x000A]"
    by (simp add: preamble_lines_def split_nl_join)
  show "preamble_lines input = [[]] \<or>
    (hd (preamble_lines input) \<noteq> [] \<and> \<not> isWhiteSpace (hd (hd (preamble_lines input))) \<and>
     last (preamble_lines input) \<noteq> [] \<and> \<not> isWhiteSpace (last (last (preamble_lines input))))"
    by (rule preamble_lines_ends)
  show "py_inputs (preamble_lines input) 0 n =
     take n (preamble_lines input) @ replicate (n - length (preamble_lines input)) []"
    by (simp add: py_inputs_eq)
  show "length (preamble_lines input) \<le> k \<longrightarrow> py_input (preamble_lines input) k = ([], k)"
    by (simp add: py_input_def)
qed

theorem python_input_is_trimmed_witness:
  "preamble_lines (Some (ascii ''  3'' @ [0x000A] @ ascii ''4 '' @ [0x000A, 0x000A])) =
     [ascii ''3'', ascii ''4''] \<and>
   py_inputs (preamble_lines (Some (ascii ''  3'' @ [0x000A] @ ascii ''4 '' @ [0x000A, 0x000A]))) 0 4 =
     [ascii ''3'', ascii ''4'', [], []] \<and>
   py_input (preamble_lines (Some (ascii ''  3'' @ [0x000A] @ ascii ''4 '' @ [0x000A, 0x000A]))) 2 =
     ([], 2)"
proof -
  let ?i = "Some (ascii ''  3'' @ [0x000A] @ ascii ''4 '' @ [0x000A, 0x000A])"
  have a: "preamble_lines ?i = [ascii ''3'', ascii ''4'']" by code_simp
  have b: "take 4 [ascii ''3'', ascii ''4''] @ replicate (4 - length [ascii ''3'', ascii ''4'']) []
      = [ascii ''3'', ascii ''4'', [], []]"
    by code_simp
  from python_input_is_trimmed [of _ _ ?i _ 4 2] a b show ?thesis by simp
qed

section \<open>The order of the leaderboard\<close>

lemma compare_entries_le: "compare_entries a b \<le> 0 \<longleftrightarrow> ranks_before a b"
  by (auto simp: compare_entries_def ranks_before_def js_sub_def fl_le_zero_iff)

lemma ranks_before_total: "\<not> ranks_before a b \<Longrightarrow> ranks_before b a"
  by (auto simp: ranks_before_def)

lemma ranks_before_trans: "ranks_before a b \<Longrightarrow> ranks_before b c \<Longrightarrow> ranks_before a c"
  by (auto simp: ranks_before_def)

lemma set_insert_sorted: "set (insert_sorted a bs) = insert a (set bs)"
  by (induction bs) auto

lemma length_insert_sorted: "length (insert_sorted a bs) = Suc (length bs)"
  by (induction bs) auto

lemma sorted_insert_sorted:
  "sorted_wrt ranks_before bs \<Longrightarrow> sorted_wrt ranks_before (insert_sorted a bs)"
proof (induction bs)
  case Nil
  then show ?case by simp
next
  case (Cons b bs)
  show ?case
  proof (cases "compare_entries a b \<le> 0")
    case True
    then have ab: "ranks_before a b" by (simp add: compare_entries_le)
    have "\<forall>c\<in>set bs. ranks_before a c"
      using Cons.prems ab by (auto intro: ranks_before_trans)
    with True ab Cons.prems show ?thesis by simp
  next
    case False
    then have "ranks_before b a" by (simp add: compare_entries_le ranks_before_total)
    with False Cons show ?thesis by (auto simp: set_insert_sorted)
  qed
qed

lemma set_sort_entries: "set (sort_entries xs) = set xs"
  by (induction xs) (simp_all add: set_insert_sorted)

lemma length_sort_entries: "length (sort_entries xs) = length xs"
  by (induction xs) (simp_all add: length_insert_sorted)

lemma sorted_sort_entries: "sorted_wrt ranks_before (sort_entries xs)"
  by (induction xs) (simp_all add: sorted_insert_sorted)

text \<open>
  C7. In the leaderboard every entry ranks before every later one: it has a higher
  \<open>totalScore\<close>, or the same \<open>totalScore\<close> and more \<open>problemsSolved\<close>, or the same of
  both and a \<open>totalTime\<close> that is not greater. The sort loses no user.
\<close>

theorem leaderboard_sorted:
  "sorted_wrt ranks_before (leaderboard userExists contest submissions) \<and>
   (\<forall>i j. i < j \<and> j < length (leaderboard userExists contest submissions) \<longrightarrow>
      ranks_before (leaderboard userExists contest submissions ! i)
                   (leaderboard userExists contest submissions ! j)) \<and>
   length (leaderboard userExists contest submissions) =
     length (fold (tally userExists) submissions [])"
proof -
  have s: "sorted_wrt ranks_before (leaderboard userExists contest submissions)"
    by (simp add: leaderboard_def Let_def sorted_sort_entries)
  have l: "length (leaderboard userExists contest submissions) =
     length (fold (tally userExists) submissions [])"
    by (simp add: leaderboard_def Let_def length_sort_entries)
  from s l show ?thesis by (simp add: sorted_wrt_iff_nth_less)
qed

theorem leaderboard_sorted_witness:
  "map us_userId (leaderboard everyone ex_contest
     [ex_graded 1 7 1 40 10, ex_graded 2 8 1 40 5, ex_graded 3 9 1 50 20, ex_graded 4 7 2 0 10])
     = [9, 8, 7] \<and>
   ranks_before
     (leaderboard everyone ex_contest
        [ex_graded 1 7 1 40 10, ex_graded 2 8 1 40 5, ex_graded 3 9 1 50 20, ex_graded 4 7 2 0 10] ! 1)
     (leaderboard everyone ex_contest
        [ex_graded 1 7 1 40 10, ex_graded 2 8 1 40 5, ex_graded 3 9 1 50 20, ex_graded 4 7 2 0 10] ! 2)"
proof -
  let ?subs = "[ex_graded 1 7 1 40 10, ex_graded 2 8 1 40 5, ex_graded 3 9 1 50 20,
                ex_graded 4 7 2 0 10]"
  have a: "map us_userId (leaderboard everyone ex_contest ?subs) = [9, 8, 7]" by code_simp
  then have "length (map us_userId (leaderboard everyone ex_contest ?subs)) = 3" by simp
  then have b: "(1::nat) < 2 \<and> 2 < length (leaderboard everyone ex_contest ?subs)" by simp
  from leaderboard_sorted [of everyone ex_contest ?subs] b a show ?thesis by blast
qed

section \<open>The scores of the leaderboard\<close>

lemma bestMarks_nonneg: "0 \<le> bestMarks q ys"
  by (simp add: bestMarks_def)

lemma bestMarks_snoc:
  "bestMarks q (ys @ [s]) =
     (if s_questionId s = q then max (s_marksAwarded s) (bestMarks q ys) else bestMarks q ys)"
proof (cases "s_questionId s = q")
  case True
  let ?S = "set (map s_marksAwarded (filter (\<lambda>s. s_questionId s = q) ys))"
  have "insert 0 (set (map s_marksAwarded (filter (\<lambda>s. s_questionId s = q) (ys @ [s])))) =
      insert (s_marksAwarded s) (insert 0 ?S)"
    using True by auto
  moreover have "Max (insert (s_marksAwarded s) (insert 0 ?S)) =
      max (s_marksAwarded s) (Max (insert 0 ?S))"
    by (rule Max_insert) simp_all
  ultimately show ?thesis using True by (simp add: bestMarks_def)
next
  case False
  then show ?thesis by (simp add: bestMarks_def)
qed

lemma bestMarks_Nil: "bestMarks q [] = 0"
  by (simp add: bestMarks_def)

lemma bestMarks_positive_question: "0 < bestMarks q ys \<Longrightarrow> q \<in> set (map s_questionId ys)"
proof (rule ccontr)
  assume p: "0 < bestMarks q ys" and n: "q \<notin> set (map s_questionId ys)"
  from n have "filter (\<lambda>s. s_questionId s = q) ys = []"
    by (auto simp: filter_empty_conv)
  then have "bestMarks q ys = 0" by (simp add: bestMarks_def)
  with p show False by simp
qed

lemma bestMarks_in:
  "bestMarks q ys \<in> insert 0 (set (map s_marksAwarded (filter (\<lambda>s. s_questionId s = q) ys)))"
  unfolding bestMarks_def by (rule Max_in) simp_all

lemma bestMarks_Ints: "\<forall>s\<in>set ys. s_marksAwarded s \<in> \<int> \<Longrightarrow> bestMarks q ys \<in> \<int>"
  using bestMarks_in [of q ys] by auto

lemma fl_Ints:
  assumes "x \<in> \<int>" and "0 \<le> x" and "x < 2 ^ 53"
  shows "fl x = x"
proof -
  from assms(1) obtain n where n: "x = of_int n" by (rule Ints_cases)
  have "0 \<le> n" using assms(2) n by simp
  moreover have "(of_int n :: rat) < of_int (2 ^ 53)" using assms(3) n by simp
  then have "n < 2 ^ 53" by (simp only: of_int_less_iff)
  ultimately show ?thesis using fl_of_int [of n] n by simp
qed

lemma sum_list_filter_le:
  fixes f :: "'a \<Rightarrow> rat"
  shows "\<forall>x\<in>set xs. 0 \<le> f x \<Longrightarrow> sum_list (map f (filter P xs)) \<le> sum_list (map f xs)"
  by (induction xs) (auto intro: add_increasing)

lemma sum_list_marks_nonneg:
  fixes f :: "'a \<Rightarrow> rat"
  shows "\<forall>x\<in>set xs. 0 \<le> f x \<Longrightarrow> 0 \<le> sum_list (map f xs)"
  by (induction xs) auto

lemma score_invariant_initial: "score_invariant [] (initialScore s0)"
  by (simp add: score_invariant_def initialScore_def bestMarks_Nil)

lemma total_invariant_initial: "total_invariant [] (initialScore s0)"
  by (simp add: total_invariant_def initialScore_def)

lemma score_invariant_dom:
  "score_invariant ys e \<Longrightarrow> dom (us_questionScores e) = {q. 0 < bestMarks q ys}"
  by (auto simp: score_invariant_def dom_def)

lemma score_invariant_finite: "score_invariant ys e \<Longrightarrow> finite (dom (us_questionScores e))"
proof -
  assume i: "score_invariant ys e"
  have "{q. 0 < bestMarks q ys} \<subseteq> set (map s_questionId ys)"
    using bestMarks_positive_question by blast
  then have "finite {q. 0 < bestMarks q ys}" by (rule finite_subset) simp
  with i show ?thesis by (simp add: score_invariant_dom)
qed

lemma score_invariant_current:
  assumes i: "score_invariant ys e"
  shows "(case us_questionScores e q of None \<Rightarrow> 0 | Some v \<Rightarrow> or_zero v) = bestMarks q ys"
  using i bestMarks_nonneg [of q ys] by (simp add: score_invariant_def or_zero_def)

lemma updateScore_better:
  assumes i: "score_invariant ys e" and b: "s_marksAwarded s > bestMarks (s_questionId s) ys"
  shows "updateScore s e =
        e\<lparr>us_totalScore :=
            js_add (us_totalScore e)
                   (js_sub (s_marksAwarded s) (bestMarks (s_questionId s) ys)),
          us_questionScores := (us_questionScores e)(s_questionId s \<mapsto> s_marksAwarded s),
          us_problemsSolved :=
            (if bestMarks (s_questionId s) ys = 0 then us_problemsSolved e + 1
             else us_problemsSolved e),
          us_totalTime := us_totalTime e + s_executionTime s,
          us_lastSubmission := s_submittedAt s\<rparr>"
proof -
  have "0 < s_marksAwarded s" using b bestMarks_nonneg [of "s_questionId s" ys] by simp
  then show ?thesis
    using b by (simp add: updateScore_def Let_def score_invariant_current [OF i] or_zero_def)
qed

lemma updateScore_not_better:
  assumes i: "score_invariant ys e" and b: "\<not> s_marksAwarded s > bestMarks (s_questionId s) ys"
  shows "updateScore s e =
        e\<lparr>us_totalTime := us_totalTime e + s_executionTime s,
          us_lastSubmission := s_submittedAt s\<rparr>"
  using b by (simp add: updateScore_def Let_def score_invariant_current [OF i] or_zero_def)

lemma score_invariant_step:
  assumes i: "score_invariant ys e"
  shows "score_invariant (ys @ [s]) (updateScore s e)"
proof -
  let ?qs = "us_questionScores e"
  let ?q0 = "s_questionId s"
  let ?m = "s_marksAwarded s"
  let ?b = "bestMarks ?q0 ys"
  let ?D = "dom ?qs"
  have ch: "\<And>q. ?qs q = (if 0 < bestMarks q ys then Some (bestMarks q ys) else None)"
    using i by (simp add: score_invariant_def)
  have sol: "us_problemsSolved e = int (card ?D)"
    and tim: "us_totalTime e = sum_list (map s_executionTime ys)"
    using i by (simp_all add: score_invariant_def)
  have fin: "finite ?D" using i by (rule score_invariant_finite)
  have b0: "0 \<le> ?b" by (rule bestMarks_nonneg)
  have mem: "?q0 \<in> ?D \<longleftrightarrow> 0 < ?b" by (simp add: dom_def ch)
  show ?thesis
  proof (cases "?m > ?b")
    case True
    let ?qs' = "?qs(?q0 \<mapsto> ?m)"
    have m0: "0 < ?m" using True b0 by simp
    note e' = updateScore_better [OF i True]
    have c1: "\<And>q. ?qs' q =
        (if 0 < bestMarks q (ys @ [s]) then Some (bestMarks q (ys @ [s])) else None)"
      using True m0 by (simp add: bestMarks_snoc ch max_def)
    have d': "dom ?qs' = insert ?q0 ?D" by simp
    have c3: "(if ?b = 0 then us_problemsSolved e + 1 else us_problemsSolved e) =
        int (card (dom ?qs'))"
    proof (cases "?b = 0")
      case True
      then have "?q0 \<notin> ?D" using mem by simp
      then show ?thesis using True fin sol by (simp add: d' del: dom_fun_upd)
    next
      case False
      then have "?q0 \<in> ?D" using mem b0 by simp
      then have "insert ?q0 ?D = ?D" by auto
      then show ?thesis using False sol by (simp add: d' del: dom_fun_upd)
    qed
    show ?thesis
      unfolding score_invariant_def e'
      using c1 c3 tim by simp
  next
    case False
    note e' = updateScore_not_better [OF i False]
    have c1: "\<And>q. ?qs q =
        (if 0 < bestMarks q (ys @ [s]) then Some (bestMarks q (ys @ [s])) else None)"
      using False by (auto simp: bestMarks_snoc ch max_def)
    show ?thesis
      unfolding score_invariant_def e'
      using c1 sol tim by simp
  qed
qed

lemma total_invariant_step:
  assumes i: "score_invariant ys e" and t: "total_invariant ys e"
    and w: "\<forall>x\<in>set (ys @ [s]). s_marksAwarded x \<in> \<int> \<and> 0 \<le> s_marksAwarded x"
    and bd: "sum_list (map s_marksAwarded (ys @ [s])) < 2 ^ 53"
  shows "total_invariant (ys @ [s]) (updateScore s e)"
proof -
  let ?qs = "us_questionScores e"
  let ?q0 = "s_questionId s"
  let ?m = "s_marksAwarded s"
  let ?b = "bestMarks ?q0 ys"
  let ?D = "dom ?qs"
  let ?S = "sum_list (map s_marksAwarded ys)"
  have ch: "\<And>q. ?qs q = (if 0 < bestMarks q ys then Some (bestMarks q ys) else None)"
    using i by (simp add: score_invariant_def)
  have tot: "us_totalScore e = (\<Sum>q\<in>?D. the (?qs q))"
    and le: "us_totalScore e \<le> ?S"
    using t by (simp_all add: total_invariant_def)
  have fin: "finite ?D" using i by (rule score_invariant_finite)
  have b0: "0 \<le> ?b" by (rule bestMarks_nonneg)
  have mem: "?q0 \<in> ?D \<longleftrightarrow> 0 < ?b" by (simp add: dom_def ch)
  have m0: "0 \<le> ?m" and mi: "?m \<in> \<int>" using w by simp_all
  have wy: "\<forall>x\<in>set ys. s_marksAwarded x \<in> \<int>" using w by simp
  have S0: "0 \<le> ?S" using w by (intro sum_list_marks_nonneg) simp
  have bd': "?S + ?m < 2 ^ 53" using bd by simp
  have split_sum: "(\<Sum>q\<in>?D. the (?qs q)) = ?b + (\<Sum>q\<in>?D - {?q0}. the (?qs q))"
  proof (cases "?q0 \<in> ?D")
    case True
    then have "(\<Sum>q\<in>?D. the (?qs q)) = the (?qs ?q0) + (\<Sum>q\<in>?D - {?q0}. the (?qs q))"
      using fin by (simp add: sum.remove)
    moreover have "the (?qs ?q0) = ?b" using True mem by (simp add: ch)
    ultimately show ?thesis by simp
  next
    case False
    then have "?b = 0" using mem b0 by simp
    moreover have "?D - {?q0} = ?D" using False by simp
    ultimately show ?thesis by simp
  qed
  have each: "\<And>q. q \<in> ?D \<Longrightarrow> the (?qs q) = bestMarks q ys"
    by (auto simp: ch dom_def split: if_splits)
  have ti: "us_totalScore e \<in> \<int>"
    unfolding tot by (rule Ints_sum) (simp add: each bestMarks_Ints [OF wy])
  have t0: "0 \<le> us_totalScore e"
    unfolding tot by (rule sum_nonneg) (simp add: each bestMarks_nonneg)
  show ?thesis
  proof (cases "?m > ?b")
    case True
    let ?qs' = "?qs(?q0 \<mapsto> ?m)"
    note e' = updateScore_better [OF i True]
    have bi: "?b \<in> \<int>" by (rule bestMarks_Ints [OF wy])
    have "?m - ?b < 2 ^ 53" using b0 S0 bd' by simp
    then have d: "js_sub ?m ?b = ?m - ?b"
      unfolding js_sub_def using True mi bi by (intro fl_Ints) simp_all
    have "us_totalScore e + (?m - ?b) < 2 ^ 53" using b0 le bd' by simp
    then have a: "js_add (us_totalScore e) (?m - ?b) = us_totalScore e + (?m - ?b)"
      unfolding js_add_def using True ti mi bi t0 by (intro fl_Ints) simp_all
    have d': "dom ?qs' = insert ?q0 ?D" by simp
    have "(\<Sum>q\<in>dom ?qs'. the (?qs' q)) = ?m + (\<Sum>q\<in>?D - {?q0}. the (?qs' q))"
      using fin by (simp add: d' sum.insert_remove del: dom_fun_upd)
    also have "(\<Sum>q\<in>?D - {?q0}. the (?qs' q)) = (\<Sum>q\<in>?D - {?q0}. the (?qs q))"
      by (rule sum.cong) simp_all
    finally have s1: "(\<Sum>q\<in>dom ?qs'. the (?qs' q)) = ?m + (\<Sum>q\<in>?D - {?q0}. the (?qs q))" .
    have c2: "us_totalScore e + (?m - ?b) = (\<Sum>q\<in>dom ?qs'. the (?qs' q))"
      by (simp only: tot split_sum s1)
    have c4: "us_totalScore e + (?m - ?b) \<le> sum_list (map s_marksAwarded (ys @ [s]))"
      using b0 le by simp
    show ?thesis
      unfolding total_invariant_def e' d a
      using c2 c4 by simp
  next
    case False
    note e' = updateScore_not_better [OF i False]
    have "us_totalScore e \<le> sum_list (map s_marksAwarded (ys @ [s]))" using le m0 by simp
    then show ?thesis
      unfolding total_invariant_def e'
      using tot by simp
  qed
qed

lemma score_invariant_fold:
  "score_invariant ys e \<Longrightarrow> score_invariant (ys @ zs) (fold updateScore zs e)"
proof (induction zs arbitrary: ys e)
  case Nil
  then show ?case by simp
next
  case (Cons z zs)
  from Cons.prems have "score_invariant (ys @ [z]) (updateScore z e)"
    by (rule score_invariant_step)
  then have "score_invariant ((ys @ [z]) @ zs) (fold updateScore zs (updateScore z e))"
    by (rule Cons.IH)
  then show ?case by simp
qed

lemma total_invariant_fold:
  "score_invariant ys e \<Longrightarrow> total_invariant ys e \<Longrightarrow>
   \<forall>x\<in>set (ys @ zs). s_marksAwarded x \<in> \<int> \<and> 0 \<le> s_marksAwarded x \<Longrightarrow>
   sum_list (map s_marksAwarded (ys @ zs)) < 2 ^ 53 \<Longrightarrow>
   total_invariant (ys @ zs) (fold updateScore zs e)"
proof (induction zs arbitrary: ys e)
  case Nil
  then show ?case by simp
next
  case (Cons z zs)
  have w: "\<forall>x\<in>set (ys @ [z]). s_marksAwarded x \<in> \<int> \<and> 0 \<le> s_marksAwarded x"
    using Cons.prems(3) by simp
  have "0 \<le> sum_list (map s_marksAwarded zs)"
    using Cons.prems(3) by (intro sum_list_marks_nonneg) simp
  then have bd: "sum_list (map s_marksAwarded (ys @ [z])) < 2 ^ 53"
    using Cons.prems(4) by simp
  have 1: "score_invariant (ys @ [z]) (updateScore z e)"
    using Cons.prems(1) by (rule score_invariant_step)
  have 2: "total_invariant (ys @ [z]) (updateScore z e)"
    using Cons.prems(1,2) w bd by (rule total_invariant_step)
  have "total_invariant ((ys @ [z]) @ zs) (fold updateScore zs (updateScore z e))"
    using 1 2 Cons.prems(3,4) by (intro Cons.IH) simp_all
  then show ?case by simp
qed

lemma updateScore_totalScore:
  assumes "0 \<le> us_totalScore e" and "fl (us_totalScore e) = us_totalScore e"
  shows "us_totalScore e \<le> us_totalScore (updateScore s e) \<and>
         fl (us_totalScore (updateScore s e)) = us_totalScore (updateScore s e)"
proof -
  let ?c = "case us_questionScores e (s_questionId s) of None \<Rightarrow> 0 | Some v \<Rightarrow> or_zero v"
  show ?thesis
  proof (cases "s_marksAwarded s > ?c")
    case True
    let ?x = "us_totalScore e + js_sub (s_marksAwarded s) ?c"
    have u: "us_totalScore (updateScore s e) = fl ?x"
      using True by (simp add: updateScore_def Let_def js_add_def)
    have "0 < js_sub (s_marksAwarded s) ?c"
      unfolding js_sub_def using True by (intro fl_pos) simp
    then have x: "us_totalScore e \<le> ?x" by simp
    then have "fl (us_totalScore e) \<le> fl ?x" using assms(1) by (intro fl_mono)
    moreover have "fl (fl ?x) = fl ?x" using x assms(1) by (intro fl_idem) simp
    ultimately show ?thesis using assms(2) by (simp add: u)
  next
    case False
    then have "us_totalScore (updateScore s e) = us_totalScore e"
      by (simp add: updateScore_def Let_def)
    then show ?thesis using assms(2) by simp
  qed
qed

lemma fold_updateScore_totalScore:
  "0 \<le> us_totalScore e \<Longrightarrow> fl (us_totalScore e) = us_totalScore e \<Longrightarrow>
   0 \<le> us_totalScore (fold updateScore zs e) \<and>
   fl (us_totalScore (fold updateScore zs e)) = us_totalScore (fold updateScore zs e)"
proof (induction zs arbitrary: e)
  case Nil
  then show ?case by simp
next
  case (Cons z zs)
  from updateScore_totalScore [OF Cons.prems, of z]
  have "0 \<le> us_totalScore (updateScore z e)"
    and "fl (us_totalScore (updateScore z e)) = us_totalScore (updateScore z e)"
    using Cons.prems(1) by simp_all
  then show ?case using Cons.IH [of "updateScore z e"] by simp
qed

lemma updateScore_userId: "us_userId (updateScore s e) = us_userId e"
  by (simp add: updateScore_def Let_def)

lemma fold_updateScore_userId: "us_userId (fold updateScore zs e) = us_userId e"
  by (induction zs arbitrary: e) (simp_all add: updateScore_userId)

lemma userSubmissions_snoc:
  "userSubmissions u (xs @ [s]) =
     (if s_userId s = u then userSubmissions u xs @ [s] else userSubmissions u xs)"
  by (simp add: userSubmissions_def)

lemma userSubmissions_Nil_iff: "userSubmissions u xs = [] \<longleftrightarrow> (\<forall>s\<in>set xs. s_userId s \<noteq> u)"
  by (auto simp: userSubmissions_def filter_empty_conv)

lemma tally_invariant_step:
  assumes inv: "tally_invariant userExists xs us"
  shows "tally_invariant userExists (xs @ [s]) (tally userExists s us)"
proof (cases "userExists (s_userId s)")
  case False
  have d: "distinct (map fst us)" using inv by (simp add: tally_invariant_def)
  have en: "\<And>u e. (u, e) \<in> set us \<Longrightarrow> userExists u \<and> userSubmissions u xs \<noteq> [] \<and>
        e = fold updateScore (userSubmissions u xs) (initialScore (hd (userSubmissions u xs)))"
    using inv by (auto simp: tally_invariant_def)
  have ks: "\<And>t. t \<in> set xs \<Longrightarrow> userExists (s_userId t) \<Longrightarrow> s_userId t \<in> fst ` set us"
    using inv by (auto simp: tally_invariant_def)
  have t: "tally userExists s us = us" using False by (simp add: tally_def)
  have "\<And>u e. (u, e) \<in> set us \<Longrightarrow> userSubmissions u (xs @ [s]) = userSubmissions u xs"
    using en False by (auto simp: userSubmissions_snoc)
  then have "\<forall>(u, e)\<in>set us. userExists u \<and> userSubmissions u (xs @ [s]) \<noteq> [] \<and>
        e = fold updateScore (userSubmissions u (xs @ [s]))
              (initialScore (hd (userSubmissions u (xs @ [s]))))"
    using en by auto
  moreover have "\<forall>t\<in>set (xs @ [s]). userExists (s_userId t) \<longrightarrow> s_userId t \<in> fst ` set us"
    using ks False by auto
  ultimately show ?thesis using d unfolding tally_invariant_def t by blast
next
  case True
  let ?u0 = "s_userId s"
  let ?us1 = "if map_of us ?u0 = None then us @ [(?u0, initialScore s)] else us"
  let ?f = "\<lambda>(k, v). if k = ?u0 then (k, updateScore s v) else (k, v)"
  have d: "distinct (map fst us)" using inv by (simp add: tally_invariant_def)
  have en: "\<And>u e. (u, e) \<in> set us \<Longrightarrow> userExists u \<and> userSubmissions u xs \<noteq> [] \<and>
        e = fold updateScore (userSubmissions u xs) (initialScore (hd (userSubmissions u xs)))"
    using inv by (auto simp: tally_invariant_def)
  have ks: "\<And>t. t \<in> set xs \<Longrightarrow> userExists (s_userId t) \<Longrightarrow> s_userId t \<in> fst ` set us"
    using inv by (auto simp: tally_invariant_def)
  have t: "tally userExists s us = map ?f ?us1"
    using True by (simp add: tally_def Let_def)
  have fst_f: "map fst (map ?f ?us1) = map fst ?us1"
    by (auto simp: case_prod_beta)
  have none: "map_of us ?u0 = None \<longleftrightarrow> ?u0 \<notin> fst ` set us"
    by (simp add: map_of_eq_None_iff)
  have d1: "distinct (map fst ?us1)" using d none by auto
  have c1: "distinct (map fst (map ?f ?us1))" using d1 by (simp only: fst_f)
  have c2: "\<forall>(u, e')\<in>set (map ?f ?us1). userExists u \<and> userSubmissions u (xs @ [s]) \<noteq> [] \<and>
        e' = fold updateScore (userSubmissions u (xs @ [s]))
               (initialScore (hd (userSubmissions u (xs @ [s]))))"
  proof (clarify)
    fix u e' assume "(u, e') \<in> set (map ?f ?us1)"
    then have "(u, e') \<in> ?f ` set ?us1" by (simp only: set_map)
    then obtain p where p: "p \<in> set ?us1" and fp: "(u, e') = ?f p" by (rule imageE)
    obtain k v where kv: "p = (k, v)" by (cases p)
    have "k = u \<and> e' = (if u = ?u0 then updateScore s v else v)"
      using fp kv by (cases "k = ?u0") simp_all
    then obtain e where e: "(u, e) \<in> set ?us1" and e': "e' = (if u = ?u0 then updateScore s e else e)"
      using p kv by blast
    show "userExists u \<and> userSubmissions u (xs @ [s]) \<noteq> [] \<and>
        e' = fold updateScore (userSubmissions u (xs @ [s]))
               (initialScore (hd (userSubmissions u (xs @ [s]))))"
    proof (cases "u = ?u0")
      case False
      then have "(u, e) \<in> set us" using e by (auto split: if_splits)
      then show ?thesis using en [of u e] False e' by (simp add: userSubmissions_snoc)
    next
      case u: True
      show ?thesis
      proof (cases "(u, e) \<in> set us")
        case True
        from en [OF True] have ne: "userSubmissions u xs \<noteq> []"
          and ee: "e = fold updateScore (userSubmissions u xs)
                         (initialScore (hd (userSubmissions u xs)))"
          by simp_all
        have "userSubmissions u (xs @ [s]) = userSubmissions u xs @ [s]"
          using u by (simp add: userSubmissions_snoc)
        moreover have "hd (userSubmissions u xs @ [s]) = hd (userSubmissions u xs)"
          using ne by simp
        ultimately show ?thesis using u e' ee \<open>userExists (s_userId s)\<close> by simp
      next
        case False
        then have new: "map_of us ?u0 = None" and ei: "e = initialScore s"
          using e u by (auto split: if_splits)
        from new none have "?u0 \<notin> fst ` set us" by blast
        then have "\<forall>t\<in>set xs. s_userId t \<noteq> ?u0"
          using ks \<open>userExists (s_userId s)\<close> by metis
        then have "userSubmissions ?u0 xs = []" by (simp add: userSubmissions_Nil_iff)
        then have "userSubmissions u (xs @ [s]) = [s]" using u by (simp add: userSubmissions_snoc)
        then show ?thesis using u e' ei \<open>userExists (s_userId s)\<close> by simp
      qed
    qed
  qed
  have keys: "fst ` set (map ?f ?us1) = fst ` set ?us1"
    using fst_f by (metis list.set_map)
  have c3: "\<forall>t\<in>set (xs @ [s]). userExists (s_userId t) \<longrightarrow> s_userId t \<in> fst ` set (map ?f ?us1)"
  proof (intro ballI impI)
    fix t assume "t \<in> set (xs @ [s])" and ex: "userExists (s_userId t)"
    then consider "t \<in> set xs" | "t = s" by auto
    then have "s_userId t \<in> fst ` set ?us1"
    proof cases
      case 1
      then have "s_userId t \<in> fst ` set us" using ks ex by blast
      then show ?thesis by auto
    next
      case 2
      then show ?thesis using none by (auto simp: image_iff)
    qed
    then show "s_userId t \<in> fst ` set (map ?f ?us1)" by (simp only: keys)
  qed
  show ?thesis unfolding tally_invariant_def t using c1 c2 c3 by blast
qed

lemma tally_invariant_fold:
  "tally_invariant userExists xs us \<Longrightarrow>
   tally_invariant userExists (xs @ zs) (fold (tally userExists) zs us)"
proof (induction zs arbitrary: xs us)
  case Nil
  then show ?case by simp
next
  case (Cons z zs)
  from Cons.prems have "tally_invariant userExists (xs @ [z]) (tally userExists z us)"
    by (rule tally_invariant_step)
  then have "tally_invariant userExists ((xs @ [z]) @ zs)
      (fold (tally userExists) zs (tally userExists z us))"
    by (rule Cons.IH)
  then show ?case by simp
qed

lemma tallied_entry:
  assumes "(u, e) \<in> set (fold (tally userExists) subs [])"
  shows "userExists u \<and> userSubmissions u subs \<noteq> [] \<and> us_userId e = u \<and>
         e = fold updateScore (userSubmissions u subs)
               (initialScore (hd (userSubmissions u subs)))"
proof -
  have "tally_invariant userExists [] []" by (simp add: tally_invariant_def)
  then have "tally_invariant userExists ([] @ subs) (fold (tally userExists) subs [])"
    by (rule tally_invariant_fold)
  with assms have x: "userExists u" and ne: "userSubmissions u subs \<noteq> []"
    and e: "e = fold updateScore (userSubmissions u subs)
                  (initialScore (hd (userSubmissions u subs)))"
    by (auto simp: tally_invariant_def)
  have "s_userId (hd (userSubmissions u subs)) = u"
    using ne hd_in_set [OF ne] by (simp add: userSubmissions_def)
  then have i: "us_userId e = u"
    by (simp add: e fold_updateScore_userId initialScore_def)
  show ?thesis using x ne i e by simp
qed

lemma folded_score_invariant: "score_invariant ys (fold updateScore ys (initialScore s0))"
proof -
  have "score_invariant ([] @ ys) (fold updateScore ys (initialScore s0))"
    by (rule score_invariant_fold) (rule score_invariant_initial)
  then show ?thesis by simp
qed

lemma folded_total_invariant:
  assumes "\<forall>x\<in>set ys. s_marksAwarded x \<in> \<int> \<and> 0 \<le> s_marksAwarded x"
    and "sum_list (map s_marksAwarded ys) < 2 ^ 53"
  shows "total_invariant ys (fold updateScore ys (initialScore s0))"
proof -
  have "total_invariant ([] @ ys) (fold updateScore ys (initialScore s0))"
    using assms
    by (intro total_invariant_fold score_invariant_initial total_invariant_initial) simp_all
  then show ?thesis by simp
qed

lemma bestMarks_userMarks:
  assumes q: "q \<in> set (userQuestions u subs)"
  shows "bestMarks q (userSubmissions u subs) = max 0 (Max (set (userMarks u q subs)))"
proof -
  let ?S = "set (userMarks u q subs)"
  from q obtain s where s: "s \<in> set (userSubmissions u subs)" "s_questionId s = q"
    by (auto simp: userQuestions_def)
  then have m: "s_marksAwarded s \<in> ?S" by (auto simp: userMarks_def)
  then have ne: "?S \<noteq> {}" by auto
  have "Max (insert 0 ?S) = max 0 (Max ?S)" using ne by (simp add: Max_insert)
  then show ?thesis by (simp add: bestMarks_def userMarks_def)
qed

lemma bestMarks_userMarks_nonneg:
  assumes q: "q \<in> set (userQuestions u subs)"
    and nonneg: "\<forall>s\<in>set subs. 0 \<le> s_marksAwarded s"
  shows "bestMarks q (userSubmissions u subs) = Max (set (userMarks u q subs))"
proof -
  let ?S = "set (userMarks u q subs)"
  from q obtain s where s: "s \<in> set (userSubmissions u subs)" "s_questionId s = q"
    by (auto simp: userQuestions_def)
  then have m: "s_marksAwarded s \<in> ?S" by (auto simp: userMarks_def)
  have "s_marksAwarded s \<le> Max ?S" using m by (intro Max_ge) simp_all
  moreover have "0 \<le> s_marksAwarded s" using s(1) nonneg by (simp add: userSubmissions_def)
  ultimately have "0 \<le> Max ?S" by simp
  then show ?thesis by (simp add: bestMarks_userMarks [OF q])
qed

lemma positive_questions:
  "{q. 0 < bestMarks q (userSubmissions u subs)} =
     set (filter (\<lambda>q. 0 < bestMarks q (userSubmissions u subs)) (userQuestions u subs))"
  using bestMarks_positive_question [of _ "userSubmissions u subs"]
  by (auto simp: userQuestions_def)

lemma total_invariant_totalScore:
  assumes i: "score_invariant (userSubmissions u subs) e"
    and t: "total_invariant (userSubmissions u subs) e"
  shows "us_totalScore e =
     sum_list (map (\<lambda>q. bestMarks q (userSubmissions u subs)) (userQuestions u subs))"
proof -
  let ?ys = "userSubmissions u subs"
  let ?P = "{q. 0 < bestMarks q ?ys}"
  have d: "dom (us_questionScores e) = ?P" using i by (rule score_invariant_dom)
  have "us_totalScore e = (\<Sum>q\<in>?P. the (us_questionScores e q))"
    using t d by (simp add: total_invariant_def)
  also have "\<dots> = (\<Sum>q\<in>?P. bestMarks q ?ys)"
    using i by (intro sum.cong) (simp_all add: score_invariant_def)
  also have "\<dots> = (\<Sum>q\<in>set (userQuestions u subs). bestMarks q ?ys)"
  proof (rule sum.mono_neutral_left)
    show "finite (set (userQuestions u subs))" by simp
    show "?P \<subseteq> set (userQuestions u subs)" by (subst positive_questions) auto
    show "\<forall>q\<in>set (userQuestions u subs) - ?P. bestMarks q ?ys = 0"
      using bestMarks_nonneg [of _ ?ys] by (auto simp: not_less order.antisym)
  qed
  also have "\<dots> = sum_list (map (\<lambda>q. bestMarks q ?ys) (userQuestions u subs))"
    by (simp add: userQuestions_def sum_list_distinct_conv_sum_set)
  finally show ?thesis .
qed

lemma score_invariant_problemsSolved:
  assumes i: "score_invariant (userSubmissions u subs) e"
  shows "us_problemsSolved e =
     int (length (filter (\<lambda>q. 0 < bestMarks q (userSubmissions u subs)) (userQuestions u subs)))"
proof -
  let ?ys = "userSubmissions u subs"
  have "dom (us_questionScores e) = {q. 0 < bestMarks q ?ys}" using i by (rule score_invariant_dom)
  then have "us_problemsSolved e = int (card {q. 0 < bestMarks q ?ys})"
    using i by (simp add: score_invariant_def)
  also have "card {q. 0 < bestMarks q ?ys} =
      length (filter (\<lambda>q. 0 < bestMarks q ?ys) (userQuestions u subs))"
  proof -
    have "distinct (filter (\<lambda>q. 0 < bestMarks q ?ys) (userQuestions u subs))"
      by (simp add: userQuestions_def)
    then have "card (set (filter (\<lambda>q. 0 < bestMarks q ?ys) (userQuestions u subs))) =
        length (filter (\<lambda>q. 0 < bestMarks q ?ys) (userQuestions u subs))"
      by (rule distinct_card)
    then show ?thesis by (simp only: positive_questions [symmetric])
  qed
  finally show ?thesis .
qed

lemma score_invariant_updateScore:
  assumes i: "score_invariant ys e"
  shows "us_totalScore (updateScore s e) =
           (if s_marksAwarded s > bestMarks (s_questionId s) ys
            then js_add (us_totalScore e)
                        (js_sub (s_marksAwarded s) (bestMarks (s_questionId s) ys))
            else us_totalScore e)"
    and "us_questionScores (updateScore s e) (s_questionId s) =
           (if 0 < bestMarks (s_questionId s) (ys @ [s])
            then Some (bestMarks (s_questionId s) (ys @ [s])) else None)"
    and "bestMarks (s_questionId s) (ys @ [s]) =
           max (s_marksAwarded s) (bestMarks (s_questionId s) ys)"
    and "us_problemsSolved (updateScore s e) =
           us_problemsSolved e +
             (if bestMarks (s_questionId s) ys = 0 \<and> 0 < s_marksAwarded s then 1 else 0)"
    and "us_totalTime (updateScore s e) = us_totalTime e + s_executionTime s"
proof -
  let ?b = "bestMarks (s_questionId s) ys"
  have b0: "0 \<le> ?b" by (rule bestMarks_nonneg)
  note cur = score_invariant_current [OF i, of "s_questionId s"]
  show "us_totalScore (updateScore s e) =
           (if s_marksAwarded s > ?b
            then js_add (us_totalScore e) (js_sub (s_marksAwarded s) ?b)
            else us_totalScore e)"
    by (simp add: updateScore_def Let_def cur)
  from score_invariant_step [OF i, of s]
  show "us_questionScores (updateScore s e) (s_questionId s) =
           (if 0 < bestMarks (s_questionId s) (ys @ [s])
            then Some (bestMarks (s_questionId s) (ys @ [s])) else None)"
    by (simp add: score_invariant_def)
  show "bestMarks (s_questionId s) (ys @ [s]) = max (s_marksAwarded s) ?b"
    by (simp add: bestMarks_snoc)
  show "us_problemsSolved (updateScore s e) =
           us_problemsSolved e + (if ?b = 0 \<and> 0 < s_marksAwarded s then 1 else 0)"
    using b0 by (simp add: updateScore_def Let_def cur)
  show "us_totalTime (updateScore s e) = us_totalTime e + s_executionTime s"
    by (simp add: updateScore_def Let_def or_zero_def)
qed

lemma leaderboard_entry:
  assumes "e \<in> set (leaderboard userExists contest subs)"
  shows "\<exists>e0. (us_userId e, e0) \<in> set (fold (tally userExists) subs []) \<and>
              us_totalScore e = us_totalScore e0 \<and> us_problemsSolved e = us_problemsSolved e0 \<and>
              us_totalTime e = us_totalTime e0 \<and> us_questionScores e = us_questionScores e0"
proof -
  let ?us = "fold (tally userExists) subs []"
  from assms obtain u e0 M where m: "(u, e0) \<in> set ?us" and e: "e = e0\<lparr>us_maxPossibleScore := M\<rparr>"
    by (auto simp: leaderboard_def Let_def set_sort_entries)
  from tallied_entry [OF m] have "us_userId e0 = u" by blast
  with m e show ?thesis by auto
qed

text \<open>
  C6, as the claim states it, fails: marks are Numbers, and \<open>totalScore\<close> is built by
  adding improvements, each one a rounded difference. The query returns the newest
  submission first. With a submission of 0.9 marks and a later one of 0.2 marks to the
  same question, the scan sees 0.2, then adds \<open>0.9 - 0.2\<close>: the \<open>totalScore\<close> is
  \<open>0.8999999999999999\<close>, one unit in the last place below the best marks 0.9.
\<close>

theorem totalScore_counterexample:
  "userQuestions 7 [ex_graded 2 7 1 (fl (2 / 10)) 10, ex_graded 1 7 1 (fl (9 / 10)) 10] = [1] \<and>
   Max (set (userMarks 7 1 [ex_graded 2 7 1 (fl (2 / 10)) 10, ex_graded 1 7 1 (fl (9 / 10)) 10]))
     = 8106479329266893 / 9007199254740992 \<and>
   map us_totalScore (leaderboard everyone ex_contest
     [ex_graded 2 7 1 (fl (2 / 10)) 10, ex_graded 1 7 1 (fl (9 / 10)) 10])
     = [8106479329266892 / 9007199254740992]"
  by code_simp

text \<open>
  C6, amended. For every entry of the leaderboard, with \<open>u\<close> its user: the entry keeps,
  for each question, the greatest \<open>marksAwarded\<close> among the submissions of \<open>u\<close> to the
  question when that is positive, and nothing otherwise; \<open>problemsSolved\<close> is the number
  of questions \<open>u\<close> submitted to whose greatest marks are positive; \<open>totalTime\<close> is the sum
  of \<open>executionTime\<close> over all submissions of \<open>u\<close>; and when all marks are whole numbers,
  not negative, with a sum below \<open>2^53\<close>, \<open>totalScore\<close> is the sum, over the questions
  \<open>u\<close> submitted to, of the greatest \<open>marksAwarded\<close> among the submissions of \<open>u\<close> to the
  question. Step by step, whatever the marks: when the object of a user holds the tally
  of the submissions \<open>ys\<close> and one more submission \<open>s\<close> is tallied, \<open>totalScore\<close> is
  unchanged unless \<open>s\<close> improves on the best marks \<open>b\<close> of its question, and then becomes
  the double sum of \<open>totalScore\<close> and the double difference \<open>marksAwarded - b\<close>; it never
  decreases; the best marks of the question become the greater of \<open>b\<close> and the marks of
  \<open>s\<close>; \<open>problemsSolved\<close> grows by one exactly when \<open>b\<close> was 0 and \<open>s\<close> has positive
  marks; and \<open>totalTime\<close> grows by the \<open>executionTime\<close> of \<open>s\<close>.
\<close>

theorem leaderboard_scores:
  "(e \<in> set (leaderboard userExists contest subs) \<longrightarrow>
      (\<forall>q. us_questionScores e q =
         (if q \<in> set (userQuestions (us_userId e) subs) \<and>
             0 < Max (set (userMarks (us_userId e) q subs))
          then Some (Max (set (userMarks (us_userId e) q subs))) else None)) \<and>
      us_problemsSolved e =
        int (length (filter (\<lambda>q. 0 < Max (set (userMarks (us_userId e) q subs)))
                            (userQuestions (us_userId e) subs))) \<and>
      us_totalTime e = sum_list (map s_executionTime (userSubmissions (us_userId e) subs)) \<and>
      ((\<forall>s\<in>set subs. s_marksAwarded s \<in> \<int> \<and> 0 \<le> s_marksAwarded s) \<and>
       sum_list (map s_marksAwarded subs) < 2 ^ 53 \<longrightarrow>
         us_totalScore e =
           sum_list (map (\<lambda>q. Max (set (userMarks (us_userId e) q subs)))
                         (userQuestions (us_userId e) subs)))) \<and>
   us_totalScore (updateScore s (fold updateScore ys (initialScore s0))) =
     (if s_marksAwarded s > bestMarks (s_questionId s) ys
      then js_add (us_totalScore (fold updateScore ys (initialScore s0)))
                  (js_sub (s_marksAwarded s) (bestMarks (s_questionId s) ys))
      else us_totalScore (fold updateScore ys (initialScore s0))) \<and>
   us_totalScore (fold updateScore ys (initialScore s0)) \<le>
     us_totalScore (updateScore s (fold updateScore ys (initialScore s0))) \<and>
   us_questionScores (updateScore s (fold updateScore ys (initialScore s0))) (s_questionId s) =
     (if 0 < max (s_marksAwarded s) (bestMarks (s_questionId s) ys)
      then Some (max (s_marksAwarded s) (bestMarks (s_questionId s) ys)) else None) \<and>
   us_problemsSolved (updateScore s (fold updateScore ys (initialScore s0))) =
     us_problemsSolved (fold updateScore ys (initialScore s0)) +
       (if bestMarks (s_questionId s) ys = 0 \<and> 0 < s_marksAwarded s then 1 else 0) \<and>
   us_totalTime (updateScore s (fold updateScore ys (initialScore s0))) =
     us_totalTime (fold updateScore ys (initialScore s0)) + s_executionTime s"
proof -
  let ?e0 = "fold updateScore ys (initialScore s0)"
  have i0: "score_invariant ys ?e0" by (rule folded_score_invariant)
  note step = score_invariant_updateScore [OF i0, of s]
  have "0 \<le> us_totalScore (initialScore s0)" "fl (us_totalScore (initialScore s0)) =
      us_totalScore (initialScore s0)"
    by (simp_all add: initialScore_def fl_zero)
  then have "0 \<le> us_totalScore ?e0 \<and> fl (us_totalScore ?e0) = us_totalScore ?e0"
    by (rule fold_updateScore_totalScore)
  then have mono: "us_totalScore ?e0 \<le> us_totalScore (updateScore s ?e0)"
    using updateScore_totalScore [of ?e0 s] by simp
  have qs: "us_questionScores (updateScore s ?e0) (s_questionId s) =
     (if 0 < max (s_marksAwarded s) (bestMarks (s_questionId s) ys)
      then Some (max (s_marksAwarded s) (bestMarks (s_questionId s) ys)) else None)"
    using step(2) by (simp only: step(3))
  have global: "(\<forall>q. us_questionScores e q =
         (if q \<in> set (userQuestions (us_userId e) subs) \<and>
             0 < Max (set (userMarks (us_userId e) q subs))
          then Some (Max (set (userMarks (us_userId e) q subs))) else None)) \<and>
      us_problemsSolved e =
        int (length (filter (\<lambda>q. 0 < Max (set (userMarks (us_userId e) q subs)))
                            (userQuestions (us_userId e) subs))) \<and>
      us_totalTime e = sum_list (map s_executionTime (userSubmissions (us_userId e) subs)) \<and>
      ((\<forall>s\<in>set subs. s_marksAwarded s \<in> \<int> \<and> 0 \<le> s_marksAwarded s) \<and>
       sum_list (map s_marksAwarded subs) < 2 ^ 53 \<longrightarrow>
         us_totalScore e =
           sum_list (map (\<lambda>q. Max (set (userMarks (us_userId e) q subs)))
                         (userQuestions (us_userId e) subs)))"
    if m: "e \<in> set (leaderboard userExists contest subs)"
  proof -
    let ?u = "us_userId e"
    let ?ys = "userSubmissions ?u subs"
    from leaderboard_entry [OF m] obtain e1 where
      e1: "(?u, e1) \<in> set (fold (tally userExists) subs [])"
      and eq: "us_totalScore e = us_totalScore e1" "us_problemsSolved e = us_problemsSolved e1"
        "us_totalTime e = us_totalTime e1" "us_questionScores e = us_questionScores e1"
      by blast
    from tallied_entry [OF e1]
    have f: "e1 = fold updateScore ?ys (initialScore (hd ?ys))" by simp
    have i: "score_invariant ?ys e1" unfolding f by (rule folded_score_invariant)
    have best: "\<And>q. q \<in> set (userQuestions ?u subs) \<Longrightarrow>
        bestMarks q ?ys = max 0 (Max (set (userMarks ?u q subs)))"
      by (rule bestMarks_userMarks)
    have 0: "us_questionScores e1 q =
         (if q \<in> set (userQuestions ?u subs) \<and> 0 < Max (set (userMarks ?u q subs))
          then Some (Max (set (userMarks ?u q subs))) else None)" for q
    proof (cases "q \<in> set (userQuestions ?u subs)")
      case True
      have "us_questionScores e1 q = (if 0 < bestMarks q ?ys then Some (bestMarks q ?ys) else None)"
        using i by (simp add: score_invariant_def)
      then show ?thesis using True by (simp add: best [OF True] max_def)
    next
      case False
      then have "\<not> 0 < bestMarks q ?ys"
        using bestMarks_positive_question [of q ?ys] by (auto simp: userQuestions_def)
      then show ?thesis using i False by (simp add: score_invariant_def)
    qed
    have ff: "filter (\<lambda>q. 0 < bestMarks q ?ys) (userQuestions ?u subs) =
        filter (\<lambda>q. 0 < Max (set (userMarks ?u q subs))) (userQuestions ?u subs)"
      using best by (intro filter_cong) (simp_all add: max_def)
    have 2: "us_problemsSolved e1 =
        int (length (filter (\<lambda>q. 0 < Max (set (userMarks ?u q subs))) (userQuestions ?u subs)))"
      using score_invariant_problemsSolved [OF i] by (simp only: ff)
    have 3: "us_totalTime e1 = sum_list (map s_executionTime ?ys)"
      using i by (simp add: score_invariant_def)
    have 1: "us_totalScore e1 =
        sum_list (map (\<lambda>q. Max (set (userMarks ?u q subs))) (userQuestions ?u subs))"
      if w: "\<forall>s\<in>set subs. s_marksAwarded s \<in> \<int> \<and> 0 \<le> s_marksAwarded s"
        and bd: "sum_list (map s_marksAwarded subs) < 2 ^ 53"
    proof -
      have wy: "\<forall>x\<in>set ?ys. s_marksAwarded x \<in> \<int> \<and> 0 \<le> s_marksAwarded x"
        using w by (simp add: userSubmissions_def)
      have "sum_list (map s_marksAwarded ?ys) \<le> sum_list (map s_marksAwarded subs)"
        unfolding userSubmissions_def using w by (intro sum_list_filter_le) simp
      then have bs: "sum_list (map s_marksAwarded ?ys) < 2 ^ 53" using bd by simp
      have t: "total_invariant ?ys e1" unfolding f using wy bs by (rule folded_total_invariant)
      have mm: "map (\<lambda>q. bestMarks q ?ys) (userQuestions ?u subs) =
          map (\<lambda>q. Max (set (userMarks ?u q subs))) (userQuestions ?u subs)"
        using w by (intro map_cong) (simp_all add: bestMarks_userMarks_nonneg)
      show ?thesis using total_invariant_totalScore [OF i t] by (simp only: mm)
    qed
    from 0 1 2 3 eq show ?thesis by simp
  qed
  from global step(1,4,5) mono qs show ?thesis by blast
qed

theorem leaderboard_scores_witness:
  "map us_userId (leaderboard everyone ex_contest
     [ex_graded 1 7 1 40 10, ex_graded 2 7 1 30 20, ex_graded 3 7 2 0 5, ex_graded 4 8 1 10 1])
     = [7, 8] \<and>
   us_totalScore (hd (leaderboard everyone ex_contest
     [ex_graded 1 7 1 40 10, ex_graded 2 7 1 30 20, ex_graded 3 7 2 0 5, ex_graded 4 8 1 10 1]))
     = 40 \<and>
   us_problemsSolved (hd (leaderboard everyone ex_contest
     [ex_graded 1 7 1 40 10, ex_graded 2 7 1 30 20, ex_graded 3 7 2 0 5, ex_graded 4 8 1 10 1]))
     = 1 \<and>
   us_totalTime (hd (leaderboard everyone ex_contest
     [ex_graded 1 7 1 40 10, ex_graded 2 7 1 30 20, ex_graded 3 7 2 0 5, ex_graded 4 8 1 10 1]))
     = 35"
proof -
  let ?subs = "[ex_graded 1 7 1 40 10, ex_graded 2 7 1 30 20, ex_graded 3 7 2 0 5,
                ex_graded 4 8 1 10 1]"
  let ?lb = "leaderboard everyone ex_contest ?subs"
  have a: "map us_userId ?lb = [7, 8]" by code_simp
  then have "?lb \<noteq> []" by auto
  then have b: "hd ?lb \<in> set ?lb" by (rule hd_in_set)
  have c: "\<forall>s\<in>set ?subs. s_marksAwarded s \<in> \<int> \<and> 0 \<le> s_marksAwarded s"
    by (simp add: ex_graded_def)
  have c': "sum_list (map s_marksAwarded ?subs) < 2 ^ 53" by code_simp
  have u: "us_userId (hd ?lb) = 7" by code_simp
  have d: "sum_list (map (\<lambda>q. Max (set (userMarks 7 q ?subs))) (userQuestions 7 ?subs)) = 40"
    by code_simp
  have e: "int (length (filter (\<lambda>q. 0 < Max (set (userMarks 7 q ?subs)))
                            (userQuestions 7 ?subs))) = 1"
    by code_simp
  have f: "sum_list (map s_executionTime (userSubmissions 7 ?subs)) = 35" by code_simp
  from leaderboard_scores [of "hd ?lb" everyone ex_contest ?subs] b c c'
  have "us_totalScore (hd ?lb) =
        sum_list (map (\<lambda>q. Max (set (userMarks (us_userId (hd ?lb)) q ?subs)))
                      (userQuestions (us_userId (hd ?lb)) ?subs)) \<and>
      us_problemsSolved (hd ?lb) =
        int (length (filter (\<lambda>q. 0 < Max (set (userMarks (us_userId (hd ?lb)) q ?subs)))
                            (userQuestions (us_userId (hd ?lb)) ?subs))) \<and>
      us_totalTime (hd ?lb) = sum_list (map s_executionTime (userSubmissions (us_userId (hd ?lb)) ?subs))"
    by blast
  then show ?thesis using a d e f by (simp only: u)
qed

section \<open>Creating submissions\<close>

lemma countDocuments_key:
  "countDocuments db c q u =
     int (length (filter (\<lambda>k. snd k = (c, q, u)) (map doc_key db)))"
  by (simp add: countDocuments_def doc_key_def filter_map o_def)

lemma map_s_id_key: "map s_id db = map fst (map doc_key db)"
  by (simp add: doc_key_def)

lemma find_unique:
  "distinct (map s_id db) \<Longrightarrow> find (\<lambda>s. s_id s = i) db = Some s0 \<Longrightarrow> s \<in> set db \<Longrightarrow>
   s_id s = i \<Longrightarrow> s = s0"
proof -
  assume d: "distinct (map s_id db)" and f: "find (\<lambda>s. s_id s = i) db = Some s0"
    and s: "s \<in> set db" "s_id s = i"
  from f have "s0 \<in> set db" "s_id s0 = i" by (auto simp: find_Some_iff)
  with d s show ?thesis by (metis distinct_map inj_on_def)
qed

lemma store_keys:
  assumes d: "distinct (map s_id db)" and f: "findById db (s_id doc) = Some s0"
    and k: "doc_key doc = doc_key s0"
  shows "map doc_key (store db doc) = map doc_key db"
proof -
  have "s0 \<in> set db" using f by (auto simp: findById_def find_Some_iff)
  then have m: "s_id doc \<in> set (map s_id db)" using k by (auto simp: doc_key_def)
  have "\<And>s. s \<in> set db \<Longrightarrow> doc_key (if s_id s = s_id doc then doc else s) = doc_key s"
  proof -
    fix s assume s: "s \<in> set db"
    show "doc_key (if s_id s = s_id doc then doc else s) = doc_key s"
    proof (cases "s_id s = s_id doc")
      case True
      then have "s = s0" using find_unique [OF d _ s] f by (simp add: findById_def)
      then show ?thesis using True k by simp
    next
      case False
      then show ?thesis by simp
    qed
  qed
  then have "map doc_key (map (\<lambda>s. if s_id s = s_id doc then doc else s) db) = map doc_key db"
    by (simp add: o_def)
  then show ?thesis using m by (simp add: store_def)
qed

lemma distinct_keys: "map doc_key db' = map doc_key db \<Longrightarrow> distinct (map s_id db) \<Longrightarrow>
    distinct (map s_id db')"
  by (simp add: map_s_id_key)

lemma doc_key_pre_save: "doc_key (pre_save d) = doc_key d"
  by (simp add: doc_key_def pre_save_fields)

lemma processSubmission_try_keys:
  assumes d: "distinct (map s_id db)"
  shows "case processSubmission_try faults runs db i question code language of
           Inr db' \<Rightarrow> map doc_key db' = map doc_key db
         | Inl (m, db') \<Rightarrow> map doc_key db' = map doc_key db"
proof (cases "findById db i")
  case None
  then show ?thesis by (simp add: processSubmission_try_def split: option.splits)
next
  case (Some found)
  have i: "s_id found = i" using Some by (rule findById_Some_id)
  let ?g = "grade runs question code language"
  let ?s1 = "pre_save (found\<lparr>s_status := running\<rparr>)"
  let ?s2 = "pre_save (?s1\<lparr>s_testCaseResults := g_testCaseResults ?g,
                s_executionTime := g_totalExecutionTime ?g,
                s_memoryUsed := g_totalMemoryUsed ?g,
                s_status := completed,
                s_marksAwarded := g_obtainedMarks ?g,
                s_totalMarks := g_totalMarks ?g,
                s_scorePercentage := scorePercentage (g_obtainedMarks ?g) (g_totalMarks ?g)\<rparr>)"
  have k1: "doc_key ?s1 = doc_key found" by (simp add: doc_key_def pre_save_fields)
  have f1: "findById db (s_id ?s1) = Some found" using Some i by (simp add: pre_save_fields)
  have 1: "map doc_key (store db ?s1) = map doc_key db" using d f1 k1 by (rule store_keys)
  have d1: "distinct (map s_id (store db ?s1))" using 1 d by (rule distinct_keys)
  have "s_id ?s1 = i" using i by (simp add: pre_save_fields)
  then have "findById (store db ?s1) i = Some ?s1" using findById_store_same [of db ?s1] by simp
  then have f2: "findById (store db ?s1) (s_id ?s2) = Some ?s1" using i
    by (simp add: pre_save_fields)
  have k2: "doc_key ?s2 = doc_key ?s1" by (simp add: doc_key_def pre_save_fields)
  have 2: "map doc_key (store (store db ?s1) ?s2) = map doc_key (store db ?s1)"
    using d1 f2 k2 by (rule store_keys)
  show ?thesis
    using Some 1 2 by (simp add: processSubmission_try_def Let_def split: option.splits)
qed

lemma processSubmission_keys:
  assumes d: "distinct (map s_id db)"
  shows "map doc_key (snd (processSubmission faults runs db i question code language)) =
           map doc_key db"
proof (cases "processSubmission_try faults runs db i question code language")
  case (Inr db')
  with processSubmission_try_keys [OF d, of faults runs i question code language]
  show ?thesis by (simp add: processSubmission_def)
next
  case (Inl p)
  obtain m dbc where p: "p = (m, dbc)" by (cases p)
  with Inl processSubmission_try_keys [OF d, of faults runs i question code language]
  have kc: "map doc_key dbc = map doc_key db" by simp
  then have dc: "distinct (map s_id dbc)" using d by (rule distinct_keys)
  show ?thesis
  proof (cases "findById dbc i")
    case None
    then show ?thesis using Inl p kc by (simp add: processSubmission_def split: option.splits)
  next
    case (Some s1)
    let ?s = "pre_save (s1\<lparr>s_status := error, s_compilationError := m\<rparr>)"
    have "s_id s1 = i" using Some by (rule findById_Some_id)
    then have "findById dbc (s_id ?s) = Some s1" using Some by (simp add: pre_save_fields)
    moreover have "doc_key ?s = doc_key s1" by (simp add: doc_key_def pre_save_fields)
    ultimately have "map doc_key (store dbc ?s) = map doc_key dbc"
      using dc by (intro store_keys)
    then show ?thesis using Inl p kc Some
      by (simp add: processSubmission_def split: option.splits)
  qed
qed

lemma foldr_max_ge: "x \<in> set xs \<Longrightarrow> x \<le> foldr max xs (0::nat)"
  by (induction xs) auto

lemma fresh_id_fresh: "fresh_id db \<notin> set (map s_id db)"
proof
  assume "fresh_id db \<in> set (map s_id db)"
  then have "fresh_id db \<le> foldr max (map s_id db) 0" by (rule foldr_max_ge)
  then show False by (simp add: fresh_id_def)
qed

lemma submit_created:
  assumes d: "distinct (map s_id db)"
    and r: "req_contestId req = Some cid" "req_questionId req = Some qid"
      "req_code req \<noteq> []" "req_language req \<noteq> []"
    and f: "f_contestFind faults = None" "f_count faults = None" "f_create faults = None"
    and c: "find (\<lambda>c. c_id c = cid) contests = Some contest"
      "find (\<lambda>q. q_id q = qid) (c_questions contest) = Some question"
      "c_isActive contest" "now \<le> c_endTime contest" "c_startTime contest \<le> now"
      "req_language req \<in> set (c_allowedLanguages contest)"
      "of_int (countDocuments db cid qid (req_user req)) < c_maxAttempts contest"
  shows "map doc_key (snd (submit contests faults runs now req db)) =
           map doc_key db @ [(fresh_id db, cid, qid, req_user req)] \<and>
         (fst (submit contests faults runs now req db) =
            Response 201 ''Code submitted successfully'' \<or>
          fst (submit contests faults runs now req db) =
            Response 201 ''Code submitted but processing failed'')"
proof -
  let ?new = "pre_save (newSubmission (fresh_id db) cid qid (req_user req) (req_code req)
                 (req_language req) (q_totalMarks question) now)"
  let ?db1 = "store db ?new"
  have id: "s_id ?new = fresh_id db" by (simp add: pre_save_fields newSubmission_def)
  have fresh: "fresh_id db \<notin> set (map s_id db)" by (rule fresh_id_fresh)
  have db1: "?db1 = db @ [?new]" using fresh id by (simp add: store_def)
  have k: "doc_key ?new = (fresh_id db, cid, qid, req_user req)"
    by (simp add: doc_key_def pre_save_fields newSubmission_def)
  have d1: "distinct (map s_id ?db1)" using d fresh id by (simp add: db1)
  obtain rej db2 where p: "processSubmission faults runs ?db1 (fresh_id db) question
      (req_code req) (req_language req) = (rej, db2)"
    by (cases "processSubmission faults runs ?db1 (fresh_id db) question
      (req_code req) (req_language req)")
  have "map doc_key db2 = map doc_key ?db1"
    using processSubmission_keys [OF d1, of faults runs "fresh_id db" question
      "req_code req" "req_language req"] p by simp
  then have k2: "map doc_key db2 = map doc_key db @ [(fresh_id db, cid, qid, req_user req)]"
    using k by (simp add: db1)
  have dec: "submit_decide contests faults now req db = Inr question"
    using r f c by (simp add: submit_decide_def)
  have s: "submit contests faults runs now req db =
      (case rej of
         Some m \<Rightarrow> (Response 201 ''Code submitted but processing failed'', db2)
       | None \<Rightarrow>
           (case f_refetch faults of
              Some m \<Rightarrow> (Response 201 ''Code submitted but processing failed'', db2)
            | None \<Rightarrow>
                (case findById db2 (fresh_id db) of
                   None \<Rightarrow> (Response 201 ''Code submitted but processing failed'', db2)
                 | Some updatedSubmission \<Rightarrow>
                     (Response 201 ''Code submitted successfully'', db2))))"
    using r f p id by (simp add: submit_def dec submit_create_def Let_def split: option.splits)
  show ?thesis using k2 by (simp add: s split: option.splits)
qed

lemma submit_rejected:
  assumes "req_contestId req = None \<or> req_questionId req = None \<or> req_code req = [] \<or>
           req_language req = [] \<or> f_contestFind faults \<noteq> None \<or>
           (case find (\<lambda>c. c_id c = the (req_contestId req)) contests of
              None \<Rightarrow> True
            | Some contest \<Rightarrow>
               (case find (\<lambda>q. q_id q = the (req_questionId req)) (c_questions contest) of
                  None \<Rightarrow> True
                | Some question \<Rightarrow>
                    \<not> c_isActive contest \<or> c_endTime contest < now \<or> c_startTime contest > now \<or>
                    req_language req \<notin> set (c_allowedLanguages contest) \<or>
                    f_count faults \<noteq> None \<or>
                    of_int (countDocuments db (the (req_contestId req))
                              (the (req_questionId req)) (req_user req))
                      \<ge> c_maxAttempts contest \<or>
                    f_create faults \<noteq> None))"
  shows "snd (submit contests faults runs now req db) = db \<and>
         fst (submit contests faults runs now req db) \<in>
           {Response 400 ''All fields are required'', Response 500 ''Failed to submit code'',
            Response 404 ''Contest not found'', Response 404 ''Question not found'',
            Response 403 ''Contest is not accessible'',
            Response 403 ''Contest has not started yet'',
            Response 400 ''Programming language not allowed for this contest'',
            Response 403 ''Maximum submission attempts reached''}"
  using assms
  by (auto simp: submit_def submit_decide_def submit_create_def split: option.splits)

lemma countDocuments_snoc:
  "map doc_key db' = map doc_key db @ [(i, c', q', u')] \<Longrightarrow>
   countDocuments db' c q u =
     countDocuments db c q u + (if (c', q', u') = (c, q, u) then 1 else 0)"
  by (simp add: countDocuments_key)

lemma submit_dichotomy:
  assumes d: "distinct (map s_id db)"
  shows "(snd (submit contests faults runs now req db) = db \<and>
          fst (submit contests faults runs now req db) \<noteq>
            Response 201 ''Code submitted successfully'' \<and>
          fst (submit contests faults runs now req db) \<noteq>
            Response 201 ''Code submitted but processing failed'') \<or>
         (\<exists>cid qid contest.
            req_contestId req = Some cid \<and> req_questionId req = Some qid \<and>
            find (\<lambda>c. c_id c = cid) contests = Some contest \<and>
            of_int (countDocuments db cid qid (req_user req)) < c_maxAttempts contest \<and>
            map doc_key (snd (submit contests faults runs now req db)) =
              map doc_key db @ [(fresh_id db, cid, qid, req_user req)] \<and>
            countDocuments (snd (submit contests faults runs now req db)) cid qid (req_user req) =
              countDocuments db cid qid (req_user req) + 1)"
proof -
  let ?R = "req_contestId req = None \<or> req_questionId req = None \<or> req_code req = [] \<or>
           req_language req = [] \<or> f_contestFind faults \<noteq> None \<or>
           (case find (\<lambda>c. c_id c = the (req_contestId req)) contests of
              None \<Rightarrow> True
            | Some contest \<Rightarrow>
               (case find (\<lambda>q. q_id q = the (req_questionId req)) (c_questions contest) of
                  None \<Rightarrow> True
                | Some question \<Rightarrow>
                    \<not> c_isActive contest \<or> c_endTime contest < now \<or> c_startTime contest > now \<or>
                    req_language req \<notin> set (c_allowedLanguages contest) \<or>
                    f_count faults \<noteq> None \<or>
                    of_int (countDocuments db (the (req_contestId req))
                              (the (req_questionId req)) (req_user req))
                      \<ge> c_maxAttempts contest \<or>
                    f_create faults \<noteq> None))"
  show ?thesis
  proof (cases ?R)
    case True
    from submit_rejected [OF True, of runs] show ?thesis by auto
  next
    case False
    then obtain cid qid contest question where
      r: "req_contestId req = Some cid" "req_questionId req = Some qid"
        "req_code req \<noteq> []" "req_language req \<noteq> []"
      and f: "f_contestFind faults = None" "f_count faults = None" "f_create faults = None"
      and c: "find (\<lambda>c. c_id c = cid) contests = Some contest"
        "find (\<lambda>q. q_id q = qid) (c_questions contest) = Some question"
        "c_isActive contest" "now \<le> c_endTime contest" "c_startTime contest \<le> now"
        "req_language req \<in> set (c_allowedLanguages contest)"
        "of_int (countDocuments db cid qid (req_user req)) < c_maxAttempts contest"
      by (auto split: option.splits)
    from submit_created [OF d r f c, of runs]
    have k: "map doc_key (snd (submit contests faults runs now req db)) =
        map doc_key db @ [(fresh_id db, cid, qid, req_user req)]"
      by simp
    have "countDocuments (snd (submit contests faults runs now req db)) cid qid (req_user req) =
        countDocuments db cid qid (req_user req) + 1"
      using countDocuments_snoc [OF k, of cid qid "req_user req"] by simp
    with k r c show ?thesis by blast
  qed
qed

text \<open>
  C5, as the claim states it, fails in four places. The question is looked up before
  the contest is tested for being active and within its window: for an inactive contest
  and a question it does not hold, the answer is "Question not found". The window is
  closed at its end: a request at \<open>now = endTime\<close> is accepted and a submission is
  created. The count is read and the record is saved in two separate steps: when two
  requests of a user both read the count before either saves, both are accepted, and a
  contest with \<open>maxAttempts = 1\<close> has two submissions of the user for the question.
  And \<open>maxAttempts\<close> is a Number: with \<open>maxAttempts = 1.5\<close> two requests handled one
  after the other are both accepted, and the count is 2.
\<close>

theorem submit_checks_counterexample:
  "c_isActive (ex_contest\<lparr>c_isActive := False\<rparr>) = False \<and>
   submit [ex_contest\<lparr>c_isActive := False\<rparr>] no_faults (each_run ex_in_time) 150
     (ex_request\<lparr>req_questionId := Some 99\<rparr>) [] = (Response 404 ''Question not found'', []) \<and>
   c_endTime ex_contest = 200 \<and>
   fst (submit [ex_contest] no_faults (each_run ex_in_time) 200 ex_request []) =
     Response 201 ''Code submitted successfully'' \<and>
   countDocuments (snd (submit [ex_contest] no_faults (each_run ex_in_time) 200 ex_request []))
     1 1 7 = 1 \<and>
   c_maxAttempts ex_contest = 1 \<and>
   fst (submit_interleaved [ex_contest] no_faults (each_run ex_in_time) 150
          ex_request ex_request []) =
     (Response 201 ''Code submitted successfully'',
      Response 201 ''Code submitted successfully'') \<and>
   countDocuments (snd (submit_interleaved [ex_contest] no_faults (each_run ex_in_time) 150
          ex_request ex_request [])) 1 1 7 = 2 \<and>
   countDocuments
     (snd (submit [ex_contest\<lparr>c_maxAttempts := 3 / 2\<rparr>] no_faults (each_run ex_in_time) 150
             ex_request
             (snd (submit [ex_contest\<lparr>c_maxAttempts := 3 / 2\<rparr>] no_faults
                     (each_run ex_in_time) 150 ex_request [])))) 1 1 7 = 2"
  by code_simp

text \<open>
  C5, amended. Creating a submission checks, in this order: the four fields are
  present; the contest exists; the question exists within the contest; the contest is
  active and \<open>now\<close> is not after \<open>endTime\<close>; \<open>now\<close> is not before \<open>startTime\<close>; the
  language is among \<open>allowedLanguages\<close>; the number of stored submissions of the user
  for the question of the contest, as the request reads it, is less than \<open>maxAttempts\<close>.
  When no database operation throws, the first check that fails answers with its error
  and leaves the collection as it was, and when all pass one submission is added for the
  (contest, question, user). Whatever the database does, a request either leaves the
  collection as it was and answers with an error, or adds exactly one submission, and
  this only when the count it read was less than \<open>maxAttempts\<close>.
\<close>

theorem submit_checks_in_order:
  "(req_contestId req = None \<or> req_questionId req = None \<or> req_code req = [] \<or>
    req_language req = [] \<longrightarrow>
      submit contests faults runs now req db = (Response 400 ''All fields are required'', db)) \<and>
   (f_contestFind faults = None \<and> f_count faults = None \<and> f_create faults = None \<and>
    req_contestId req = Some cid \<and> req_questionId req = Some qid \<and> req_code req \<noteq> [] \<and>
    req_language req \<noteq> [] \<longrightarrow>
      (find (\<lambda>c. c_id c = cid) contests = None \<longrightarrow>
         submit contests faults runs now req db = (Response 404 ''Contest not found'', db)) \<and>
      (find (\<lambda>c. c_id c = cid) contests = Some contest \<longrightarrow>
         (find (\<lambda>q. q_id q = qid) (c_questions contest) = None \<longrightarrow>
            submit contests faults runs now req db = (Response 404 ''Question not found'', db)) \<and>
         (find (\<lambda>q. q_id q = qid) (c_questions contest) = Some question \<longrightarrow>
            (\<not> c_isActive contest \<or> c_endTime contest < now \<longrightarrow>
               submit contests faults runs now req db =
                 (Response 403 ''Contest is not accessible'', db)) \<and>
            (c_isActive contest \<and> now \<le> c_endTime contest \<longrightarrow>
               (now < c_startTime contest \<longrightarrow>
                  submit contests faults runs now req db =
                    (Response 403 ''Contest has not started yet'', db)) \<and>
               (c_startTime contest \<le> now \<longrightarrow>
                  (req_language req \<notin> set (c_allowedLanguages contest) \<longrightarrow>
                     submit contests faults runs now req db =
                       (Response 400 ''Programming language not allowed for this contest'', db)) \<and>
                  (req_language req \<in> set (c_allowedLanguages contest) \<longrightarrow>
                     (c_maxAttempts contest \<le>
                        of_int (countDocuments db cid qid (req_user req)) \<longrightarrow>
                        submit contests faults runs now req db =
                          (Response 403 ''Maximum submission attempts reached'', db)) \<and>
                     (of_int (countDocuments db cid qid (req_user req)) < c_maxAttempts contest \<and>
                      distinct (map s_id db) \<longrightarrow>
                        map doc_key (snd (submit contests faults runs now req db)) =
                          map doc_key db @ [(fresh_id db, cid, qid, req_user req)] \<and>
                        countDocuments (snd (submit contests faults runs now req db))
                          cid qid (req_user req) =
                          countDocuments db cid qid (req_user req) + 1))))))) \<and>
   (distinct (map s_id db) \<longrightarrow>
      (snd (submit contests faults runs now req db) = db \<and>
       fst (submit contests faults runs now req db) \<noteq>
         Response 201 ''Code submitted successfully'' \<and>
       fst (submit contests faults runs now req db) \<noteq>
         Response 201 ''Code submitted but processing failed'') \<or>
      (\<exists>c q k.
         req_contestId req = Some c \<and> req_questionId req = Some q \<and>
         find (\<lambda>x. c_id x = c) contests = Some k \<and>
         of_int (countDocuments db c q (req_user req)) < c_maxAttempts k \<and>
         map doc_key (snd (submit contests faults runs now req db)) =
           map doc_key db @ [(fresh_id db, c, q, req_user req)] \<and>
         countDocuments (snd (submit contests faults runs now req db)) c q (req_user req) =
           countDocuments db c q (req_user req) + 1))"
proof (intro conjI)
  show "req_contestId req = None \<or> req_questionId req = None \<or> req_code req = [] \<or>
    req_language req = [] \<longrightarrow>
      submit contests faults runs now req db = (Response 400 ''All fields are required'', db)"
    by (auto simp: submit_def submit_decide_def)
next
  show "distinct (map s_id db) \<longrightarrow>
      (snd (submit contests faults runs now req db) = db \<and>
       fst (submit contests faults runs now req db) \<noteq>
         Response 201 ''Code submitted successfully'' \<and>
       fst (submit contests faults runs now req db) \<noteq>
         Response 201 ''Code submitted but processing failed'') \<or>
      (\<exists>c q k.
         req_contestId req = Some c \<and> req_questionId req = Some q \<and>
         find (\<lambda>x. c_id x = c) contests = Some k \<and>
         of_int (countDocuments db c q (req_user req)) < c_maxAttempts k \<and>
         map doc_key (snd (submit contests faults runs now req db)) =
           map doc_key db @ [(fresh_id db, c, q, req_user req)] \<and>
         countDocuments (snd (submit contests faults runs now req db)) c q (req_user req) =
           countDocuments db c q (req_user req) + 1)"
    using submit_dichotomy [of db contests faults runs now req] by blast
next
  show "f_contestFind faults = None \<and> f_count faults = None \<and> f_create faults = None \<and>
    req_contestId req = Some cid \<and> req_questionId req = Some qid \<and> req_code req \<noteq> [] \<and>
    req_language req \<noteq> [] \<longrightarrow>
      (find (\<lambda>c. c_id c = cid) contests = None \<longrightarrow>
         submit contests faults runs now req db = (Response 404 ''Contest not found'', db)) \<and>
      (find (\<lambda>c. c_id c = cid) contests = Some contest \<longrightarrow>
         (find (\<lambda>q. q_id q = qid) (c_questions contest) = None \<longrightarrow>
            submit contests faults runs now req db = (Response 404 ''Question not found'', db)) \<and>
         (find (\<lambda>q. q_id q = qid) (c_questions contest) = Some question \<longrightarrow>
            (\<not> c_isActive contest \<or> c_endTime contest < now \<longrightarrow>
               submit contests faults runs now req db =
                 (Response 403 ''Contest is not accessible'', db)) \<and>
            (c_isActive contest \<and> now \<le> c_endTime contest \<longrightarrow>
               (now < c_startTime contest \<longrightarrow>
                  submit contests faults runs now req db =
                    (Response 403 ''Contest has not started yet'', db)) \<and>
               (c_startTime contest \<le> now \<longrightarrow>
                  (req_language req \<notin> set (c_allowedLanguages contest) \<longrightarrow>
                     submit contests faults runs now req db =
                       (Response 400 ''Programming language not allowed for this contest'', db)) \<and>
                  (req_language req \<in> set (c_allowedLanguages contest) \<longrightarrow>
                     (c_maxAttempts contest \<le>
                        of_int (countDocuments db cid qid (req_user req)) \<longrightarrow>
                        submit contests faults runs now req db =
                          (Response 403 ''Maximum submission attempts reached'', db)) \<and>
                     (of_int (countDocuments db cid qid (req_user req)) < c_maxAttempts contest \<and>
                      distinct (map s_id db) \<longrightarrow>
                        map doc_key (snd (submit contests faults runs now req db)) =
                          map doc_key db @ [(fresh_id db, cid, qid, req_user req)] \<and>
                        countDocuments (snd (submit contests faults runs now req db))
                          cid qid (req_user req) =
                          countDocuments db cid qid (req_user req) + 1))))))"
  proof (intro impI conjI; (elim conjE)?)
    assume h: "f_contestFind faults = None" "f_count faults = None" "f_create faults = None"
      "req_contestId req = Some cid" "req_questionId req = Some qid" "req_code req \<noteq> []"
      "req_language req \<noteq> []"
      "find (\<lambda>c. c_id c = cid) contests = Some contest"
      "find (\<lambda>q. q_id q = qid) (c_questions contest) = Some question"
      "c_isActive contest" "now \<le> c_endTime contest" "c_startTime contest \<le> now"
      "req_language req \<in> set (c_allowedLanguages contest)"
      "of_int (countDocuments db cid qid (req_user req)) < c_maxAttempts contest"
      "distinct (map s_id db)"
    from submit_created [OF h(15) h(4,5,6,7) h(1,2,3) h(8,9,10,11,12,13,14), of runs]
    show k: "map doc_key (snd (submit contests faults runs now req db)) =
        map doc_key db @ [(fresh_id db, cid, qid, req_user req)]"
      by simp
    show "countDocuments (snd (submit contests faults runs now req db)) cid qid (req_user req) =
        countDocuments db cid qid (req_user req) + 1"
      using countDocuments_snoc [OF k, of cid qid "req_user req"] by simp
  qed (simp_all add: submit_def submit_decide_def)
qed

theorem submit_checks_in_order_witness:
  "find (\<lambda>c. c_id c = 1) [ex_contest] = Some ex_contest \<and>
   of_int (countDocuments [] 1 1 7) < c_maxAttempts ex_contest \<and>
   distinct (map s_id ([] :: collection)) \<and>
   countDocuments (snd (submit [ex_contest] no_faults (each_run ex_in_time) 150 ex_request []))
     1 1 7 = 1"
proof -
  have h: "f_contestFind no_faults = None \<and> f_count no_faults = None \<and>
      f_create no_faults = None \<and>
      req_contestId ex_request = Some 1 \<and> req_questionId ex_request = Some 1 \<and>
      req_code ex_request \<noteq> [] \<and> req_language ex_request \<noteq> []"
    by code_simp
  have c: "find (\<lambda>c. c_id c = 1) [ex_contest] = Some ex_contest" by code_simp
  have q: "find (\<lambda>q. q_id q = 1) (c_questions ex_contest) = Some ex_question" by code_simp
  have a: "c_isActive ex_contest \<and> 150 \<le> c_endTime ex_contest" by code_simp
  have s: "c_startTime ex_contest \<le> 150" by code_simp
  have l: "req_language ex_request \<in> set (c_allowedLanguages ex_contest)" by code_simp
  have n: "of_int (countDocuments [] 1 1 (req_user ex_request)) < c_maxAttempts ex_contest \<and>
      distinct (map s_id [])"
    by code_simp
  have u: "req_user ex_request = 7" "countDocuments [] 1 1 7 = 0" "c_maxAttempts ex_contest = 1"
    by code_simp+
  note t = submit_checks_in_order [where contests = "[ex_contest]" and faults = no_faults
      and runs = "each_run ex_in_time" and now = 150 and req = ex_request and db = "[]"
      and cid = 1 and qid = 1 and contest = ex_contest and question = ex_question]
  from t [THEN conjunct2, THEN conjunct1] h c q a s l n
  have 1: "countDocuments (snd (submit [ex_contest] no_faults (each_run ex_in_time) 150
      ex_request [])) 1 1 (req_user ex_request) = countDocuments [] 1 1 (req_user ex_request) + 1"
    by blast
  from 1 c u show ?thesis by simp
qed

section \<open>The range of the percentage\<close>







section \<open>The percentage\<close>

lemma scorePercentage_doubles:
  "scorePercentage 5 10 = 50" "scorePercentage 1 3 = 33" "scorePercentage 2 3 = 67"
  "scorePercentage 29 200 = 14"
  by code_simp+




end
